theory Spec2Isabelle
  imports Main "HOL-Library.Word"
begin

section \<open>Bytes, sizes and failures\<close>

text \<open>
  The streams of \<^verbatim>\<open>src/printf/ostream.cpp\<close> move \<^verbatim>\<open>char\<close>s; a \<^verbatim>\<open>char\<close> is an
  eight-bit word here. \<^verbatim>\<open>size_t\<close> is a 64-bit unsigned integer: a natural number, with
  the reduction modulo \<open>2 ^ 64\<close> written where the code converts or adds.
\<close>

type_synonym byte = "8 word"

text \<open>
  The code throws \<^verbatim>\<open>std::system_error(code, std::generic_category())\<close>, which is
  \<open>SystemError code\<close>. \<open>Fault\<close> stands for undefined behaviour: a load or store outside
  the block a pointer belongs to, or the use of a variable that was never written.
\<close>

datatype error = SystemError int | Fault

definition EPIPE :: int where
  "EPIPE = 32"

text \<open>
  The assignment \<^verbatim>\<open>size_t n = ::read(...)\<close> (and the same for \<^verbatim>\<open>::write\<close>) converts
  the \<^verbatim>\<open>ssize_t\<close> result of the system call to \<^verbatim>\<open>size_t\<close>.
\<close>

definition size_t_of :: "int \<Rightarrow> nat" where
  "size_t_of r = nat (r mod 2 ^ 64)"

text \<open>
  A call either returns a value, throws, or never returns. Functions whose loops are
  bounded return \<open>error + 'a\<close>; a function that may loop forever returns the same
  wrapped in \<open>option\<close>, with \<open>None\<close> for the call that never returns.
\<close>

definition and_then :: "(error + 'a) option \<Rightarrow> ('a \<Rightarrow> (error + 'b) option) \<Rightarrow> (error + 'b) option" where
  "and_then r f = (case r of None \<Rightarrow> None | Some (Inl e) \<Rightarrow> Some (Inl e) | Some (Inr x) \<Rightarrow> f x)"

text \<open>
  Modelled from the spec: the macro \<^verbatim>\<open>BUFSIZ\<close> of \<^verbatim>\<open><cstdio>\<close>, which the repository
  uses and does not define. Section 4.4 of the specification gives 8192 for the reference
  design, and the notes at the head of \<^verbatim>\<open>src/printf/cstdio.cpp\<close> record the same
  value for Linux.
\<close>

definition BUFSIZ :: nat where
  "BUFSIZ = 8192"

text \<open>
  \<^verbatim>\<open>valloc(n)\<close> returns a block of \<open>n\<close> bytes whose contents are whatever the allocator
  left there. The contents found are an argument of the model, cut or padded to \<open>n\<close> bytes.
\<close>

definition valloc :: "nat \<Rightarrow> byte list \<Rightarrow> byte list" where
  "valloc n mem = take n mem @ replicate (n - length mem) 0"


section \<open>The descriptor behind an output stream\<close>

text \<open>
  The operating system is the environment of the program. For a descriptor open for
  writing it is described by what each successive \<^verbatim>\<open>::write\<close> call will do: accept at
  most so many bytes, or fail with an error number. The state also counts the calls made
  and records the bytes the descriptor has taken, in order.
\<close>

datatype wr_event = Accept nat | WrFail int

record os_out =
  behaviour :: "nat \<Rightarrow> wr_event"
  calls :: nat
  received :: "byte list"
  errno :: int
  closed :: bool

definition EBADF :: int where
  "EBADF = 9"

text \<open>
  \<^verbatim>\<open>::write(fd, p, n)\<close> with the \<open>n\<close> bytes at \<open>p\<close> given as a list: the result and the
  new state. A descriptor that has been closed takes nothing any more.
\<close>

definition os_write :: "os_out \<Rightarrow> byte list \<Rightarrow> int \<times> os_out" where
  "os_write os d =
     (if closed os then (- 1, os\<lparr>calls := Suc (calls os), errno := EBADF\<rparr>)
      else (case behaviour os (calls os) of
              Accept k \<Rightarrow>
                (int (min k (length d)),
                 os\<lparr>calls := Suc (calls os), received := received os @ take k d\<rparr>)
            | WrFail e \<Rightarrow> (- 1, os\<lparr>calls := Suc (calls os), errno := e\<rparr>)))"

definition os_close :: "os_out \<Rightarrow> os_out" where
  "os_close os = os\<lparr>closed := True\<rparr>"


section \<open>UnixFileOutStream\<close>

text \<open>
  \<^verbatim>\<open>UnixFileOutStream::write\<close>, lines 230 to 249. The argument \<open>s\<close> is the block of
  \<^verbatim>\<open>len\<close> bytes at the pointer. \<^verbatim>\<open>written\<close> and \<^verbatim>\<open>new_written\<close> are \<^verbatim>\<open>size_t\<close>, so
  the two tests \<^verbatim>\<open>< 0\<close> compare unsigned numbers. Inside the loop the pointer
  \<^verbatim>\<open>s + written\<close> must stay within the block. The call to \<^verbatim>\<open>sleep_for\<close> is left out.
\<close>

partial_function (option) UnixFileOutStream_write_loop ::
  "os_out \<Rightarrow> byte list \<Rightarrow> nat \<Rightarrow> (error + os_out) option" where
  "UnixFileOutStream_write_loop os s written =
     (if written = length s then Some (Inr os)
      else if length s < written then Some (Inl Fault)
      else (case os_write os (drop written s) of
              (r, os') \<Rightarrow>
                (if size_t_of r < 0 then Some (Inl (SystemError (errno os')))
                 else UnixFileOutStream_write_loop os' s ((written + size_t_of r) mod 2 ^ 64))))"

definition UnixFileOutStream_write :: "os_out \<Rightarrow> byte list \<Rightarrow> (error + os_out) option" where
  "UnixFileOutStream_write os s =
     (if length s = 0 then Some (Inr os)
      else (case os_write os s of
              (r, os') \<Rightarrow>
                (if size_t_of r < 0 then Some (Inl (SystemError (errno os')))
                 else if size_t_of r = 0 then Some (Inl (SystemError EPIPE))
                 else UnixFileOutStream_write_loop os' s (size_t_of r))))"

text \<open>\<^verbatim>\<open>~UnixFileOutStream\<close> closes the descriptor.\<close>

definition UnixFileOutStream_dtor :: "os_out \<Rightarrow> os_out" where
  "UnixFileOutStream_dtor os = os_close os"


section \<open>BufferedOutStream\<close>

datatype BufferMode = FullBuf | LineBuf | NoBuf

text \<open>The values of the enumerators, in the order of their declaration.\<close>

fun mode_code :: "BufferMode \<Rightarrow> nat" where
  "mode_code FullBuf = 0"
| "mode_code LineBuf = 1"
| "mode_code NoBuf = 2"

text \<open>
  Modelled from the spec: the macros \<^verbatim>\<open>_IOLBF\<close> and \<^verbatim>\<open>_IONBF\<close> of \<^verbatim>\<open><cstdio>\<close>,
  which the code compares \<^verbatim>\<open>mode\<close> with. On the Unix systems the code is written for
  they are 1 and 2, so that they select the modes Line and None of section 4.5.
\<close>

definition IOLBF :: nat where
  "IOLBF = 1"

definition IONBF :: nat where
  "IONBF = 2"

text \<open>
  The members of the class. \<open>out\<close> is the state of the wrapped stream, \<open>out_buf\<close> the
  block \<^verbatim>\<open>buf\<close> points to (\<open>None\<close> for the null pointer) and \<open>out_top\<close> the member
  \<^verbatim>\<open>top\<close>. The wrapped stream is reached through virtual calls only, so its \<^verbatim>\<open>write\<close>
  is an argument \<open>wr\<close> of every function below.
\<close>

record 'o BufferedOutStream =
  out :: 'o
  out_top :: nat
  mode :: BufferMode
  out_buf :: "byte list option"

text \<open>The constructor, lines 272 to 280; \<open>mem\<close> is what \<^verbatim>\<open>valloc\<close> finds in the block.\<close>

definition BufferedOutStream_new ::
  "'o \<Rightarrow> BufferMode \<Rightarrow> byte list option \<Rightarrow> byte list \<Rightarrow> 'o BufferedOutStream" where
  "BufferedOutStream_new out' mode' buf' mem =
     \<lparr>out = out', out_top = 0, mode = mode',
      out_buf = (if buf' = None \<and> mode_code mode' \<noteq> IONBF then Some (valloc 4096 mem) else buf')\<rparr>"

text \<open>The bytes \<^verbatim>\<open>buf[0 .. top)\<close>, which \<^verbatim>\<open>flush\<close> hands to the wrapped stream.\<close>

definition pending :: "'o BufferedOutStream \<Rightarrow> error + byte list" where
  "pending st =
     (case out_buf st of
        None \<Rightarrow> (if out_top st = 0 then Inr [] else Inl Fault)
      | Some b \<Rightarrow> (if out_top st \<le> length b then Inr (take (out_top st) b) else Inl Fault))"

text \<open>\<^verbatim>\<open>BufferedOutStream::flush\<close>, lines 282 to 285.\<close>

definition BufferedOutStream_flush ::
  "('o \<Rightarrow> byte list \<Rightarrow> (error + 'o) option) \<Rightarrow> 'o BufferedOutStream \<Rightarrow> (error + 'o BufferedOutStream) option" where
  "BufferedOutStream_flush wr st =
     (case pending st of
        Inl e \<Rightarrow> Some (Inl e)
      | Inr p \<Rightarrow> and_then (wr (out st) p) (\<lambda>out'. Some (Inr (st\<lparr>out := out', out_top := 0\<rparr>))))"

text \<open>The statement \<^verbatim>\<open>buf[top++] = c\<close>.\<close>

definition store :: "'o BufferedOutStream \<Rightarrow> byte \<Rightarrow> (error + 'o BufferedOutStream) option" where
  "store st c =
     (case out_buf st of
        None \<Rightarrow> Some (Inl Fault)
      | Some b \<Rightarrow>
          (if out_top st < length b
           then Some (Inr (st\<lparr>out_buf := Some (b[out_top st := c]), out_top := out_top st + 1\<rparr>))
           else Some (Inl Fault)))"

text \<open>\<^verbatim>\<open>BufferedOutStream::putchar\<close>, lines 287 to 299. The newline is byte 10.\<close>

definition BufferedOutStream_putchar ::
  "('o \<Rightarrow> byte list \<Rightarrow> (error + 'o) option) \<Rightarrow> 'o BufferedOutStream \<Rightarrow> byte \<Rightarrow> (error + 'o BufferedOutStream) option" where
  "BufferedOutStream_putchar wr st c =
     (if mode_code (mode st) = IONBF
      then and_then (wr (out st) [c]) (\<lambda>out'. Some (Inr (st\<lparr>out := out'\<rparr>)))
      else and_then (if out_top st = BUFSIZ then BufferedOutStream_flush wr st else Some (Inr st))
             (\<lambda>st1. and_then (store st1 c)
                (\<lambda>st2. if mode_code (mode st2) = IOLBF \<and> c = 10
                        then BufferedOutStream_flush wr st2 else Some (Inr st2))))"

text \<open>
  \<^verbatim>\<open>BufferedOutStream::write\<close>, lines 301 to 316. The \<^verbatim>\<open>for\<close> loop visits the bytes of
  the block in order; its body is the second equation.
\<close>

fun BufferedOutStream_write_loop ::
  "('o \<Rightarrow> byte list \<Rightarrow> (error + 'o) option) \<Rightarrow> 'o BufferedOutStream \<Rightarrow> byte list \<Rightarrow> (error + 'o BufferedOutStream) option" where
  "BufferedOutStream_write_loop wr st [] = Some (Inr st)"
| "BufferedOutStream_write_loop wr st (c # s) =
     and_then (if out_top st = BUFSIZ then BufferedOutStream_flush wr st else Some (Inr st))
       (\<lambda>st1. and_then (store st1 c)
          (\<lambda>st2. and_then (if mode_code (mode st2) = IOLBF \<and> c = 10
                            then BufferedOutStream_flush wr st2 else Some (Inr st2))
             (\<lambda>st3. BufferedOutStream_write_loop wr st3 s)))"

definition BufferedOutStream_write ::
  "('o \<Rightarrow> byte list \<Rightarrow> (error + 'o) option) \<Rightarrow> 'o BufferedOutStream \<Rightarrow> byte list \<Rightarrow> (error + 'o BufferedOutStream) option" where
  "BufferedOutStream_write wr st s =
     (if mode_code (mode st) = IONBF
      then and_then (wr (out st) s) (\<lambda>out'. Some (Inr (st\<lparr>out := out'\<rparr>)))
      else BufferedOutStream_write_loop wr st s)"

text \<open>
  \<^verbatim>\<open>~BufferedOutStream\<close>, lines 320 to 323: \<^verbatim>\<open>flush\<close>, then \<^verbatim>\<open>free(buf)\<close>, then the
  member \<^verbatim>\<open>out\<close> is destroyed, which runs the destructor \<open>dtor\<close> of the wrapped stream.
  The result is the state in which the wrapped stream was left. An exception that leaves
  the destructor ends the program; the result is then the error.
\<close>

definition BufferedOutStream_dtor ::
  "('o \<Rightarrow> byte list \<Rightarrow> (error + 'o) option) \<Rightarrow> ('o \<Rightarrow> 'o) \<Rightarrow> 'o BufferedOutStream \<Rightarrow> (error + 'o) option" where
  "BufferedOutStream_dtor wr dtor st =
     and_then (BufferedOutStream_flush wr st) (\<lambda>st1. Some (Inr (dtor (out st1))))"

text \<open>
  What a stream that takes every block whole has been given: the blocks \<open>cs\<close> are handed
  to \<open>wr\<close> one after the other.
\<close>

fun feed :: "('o \<Rightarrow> byte list \<Rightarrow> (error + 'o) option) \<Rightarrow> 'o \<Rightarrow> byte list list \<Rightarrow> (error + 'o) option" where
  "feed wr out' [] = Some (Inr out')"
| "feed wr out' (c # cs) = and_then (wr out' c) (\<lambda>out''. feed wr out'' cs)"


section \<open>The descriptor behind an input stream\<close>

text \<open>
  For a descriptor open for reading the environment is the list of what is still to
  come: blocks of data, in the pieces in which they arrive, and failures. A \<^verbatim>\<open>::read\<close>
  call takes from the first block at most as many bytes as were asked for; an empty block
  or the end of the list is the end of the stream.
\<close>

datatype rd_event = Data "byte list" | RdFail int

record os_in =
  source :: "rd_event list"
  reads :: nat
  in_errno :: int

text \<open>\<^verbatim>\<open>::read(fd, p, n)\<close>: the result, the bytes stored at \<open>p\<close>, and the new state.\<close>

definition os_read :: "os_in \<Rightarrow> nat \<Rightarrow> int \<times> byte list \<times> os_in" where
  "os_read os n =
     (case source os of
        [] \<Rightarrow> (0, [], os\<lparr>reads := Suc (reads os)\<rparr>)
      | Data d # evs \<Rightarrow>
          (int (min n (length d)), take n d,
           os\<lparr>source := (if drop n d = [] then evs else Data (drop n d) # evs),
              reads := Suc (reads os)\<rparr>)
      | RdFail e # evs \<Rightarrow>
          (- 1, [], os\<lparr>source := evs, reads := Suc (reads os), in_errno := e\<rparr>))"


section \<open>InStream and UnixFileInStream\<close>

text \<open>
  A call \<^verbatim>\<open>read(s, len)\<close> of any stream yields the count it returns, the bytes it
  stored from \<^verbatim>\<open>s[0]\<close> on, and the new state of the stream. \<^verbatim>\<open>InStream\<close> is abstract:
  its member functions reach \<^verbatim>\<open>read\<close> and \<^verbatim>\<open>getchar\<close> through virtual calls, which
  are the arguments \<open>rd\<close> and \<open>gc\<close> below.

  \<^verbatim>\<open>UnixFileInStream::read\<close>, lines 120 to 128. \<^verbatim>\<open>n\<close> is a \<^verbatim>\<open>size_t\<close>, so the test
  \<^verbatim>\<open>n < 0\<close> compares unsigned numbers.
\<close>

definition UnixFileInStream_read :: "os_in \<Rightarrow> nat \<Rightarrow> error + nat \<times> byte list \<times> os_in" where
  "UnixFileInStream_read os len =
     (if len = 0 then Inr (0, [], os)
      else (case os_read os len of
              (r, d, os') \<Rightarrow>
                (if size_t_of r < 0 then Inl (SystemError (in_errno os'))
                 else Inr (size_t_of r, d, os'))))"

definition EOF :: int where
  "EOF = - 1"

text \<open>
  \<^verbatim>\<open>InStream::getchar\<close>, lines 15 to 22. The callee stores into the one-byte variable
  \<^verbatim>\<open>c\<close>; the function returns \<^verbatim>\<open>c\<close> as an \<^verbatim>\<open>int\<close>, and \<^verbatim>\<open>char\<close> is signed on the
  platforms the code is written for.
\<close>

definition InStream_getchar ::
  "('i \<Rightarrow> nat \<Rightarrow> error + nat \<times> byte list \<times> 'i) \<Rightarrow> 'i \<Rightarrow> error + int \<times> 'i" where
  "InStream_getchar rd st =
     (case rd st 1 of
        Inl e \<Rightarrow> Inl e
      | Inr (n, d, st') \<Rightarrow>
          (if 1 < length d then Inl Fault
           else if n = 0 then Inr (EOF, st')
           else (case d of [] \<Rightarrow> Inl Fault | b # _ \<Rightarrow> Inr (sint b, st'))))"

text \<open>Storing the bytes \<open>d\<close> at offset \<open>off\<close> of the block \<open>dst\<close>.\<close>

definition poke :: "byte list \<Rightarrow> nat \<Rightarrow> byte list \<Rightarrow> error + byte list" where
  "poke dst off d =
     (if off + length d \<le> length dst
      then Inr (take off dst @ d @ drop (off + length d) dst)
      else Inl Fault)"

text \<open>
  \<^verbatim>\<open>InStream::readn\<close>, lines 24 to 33. \<open>dst\<close> is the block of \<^verbatim>\<open>len\<close> bytes at \<^verbatim>\<open>s\<close>
  with the contents it has when the call is made; the result holds the count returned
  and the contents of the block afterwards.
\<close>

partial_function (option) InStream_readn_loop ::
  "('i \<Rightarrow> nat \<Rightarrow> error + nat \<times> byte list \<times> 'i) \<Rightarrow> 'i \<Rightarrow> byte list \<Rightarrow> nat
     \<Rightarrow> (error + nat \<times> byte list \<times> 'i) option" where
  "InStream_readn_loop rd st dst n =
     (if n = length dst then Some (Inr (n, dst, st))
      else if length dst < n then Some (Inl Fault)
      else (case rd st (length dst - n) of
              Inl e \<Rightarrow> Some (Inl e)
            | Inr (m, d, st') \<Rightarrow>
                (case poke dst n d of
                   Inl e \<Rightarrow> Some (Inl e)
                 | Inr dst' \<Rightarrow>
                     (if m = 0 then Some (Inr (n, dst', st'))
                      else InStream_readn_loop rd st' dst' ((n + m) mod 2 ^ 64)))))"

definition InStream_readn ::
  "('i \<Rightarrow> nat \<Rightarrow> error + nat \<times> byte list \<times> 'i) \<Rightarrow> 'i \<Rightarrow> byte list
     \<Rightarrow> (error + nat \<times> byte list \<times> 'i) option" where
  "InStream_readn rd st dst =
     (case rd st (length dst) of
        Inl e \<Rightarrow> Some (Inl e)
      | Inr (n, d, st') \<Rightarrow>
          (case poke dst 0 d of
             Inl e \<Rightarrow> Some (Inl e)
           | Inr dst' \<Rightarrow>
               (if n = 0 then Some (Inr (0, dst', st'))
                else InStream_readn_loop rd st' dst' n)))"

text \<open>
  \<^verbatim>\<open>InStream::readuntil(char)\<close>, lines 54 to 67. \<^verbatim>\<open>push_back(c)\<close> converts the
  \<^verbatim>\<open>int\<close> back to a \<^verbatim>\<open>char\<close>; the comparison \<^verbatim>\<open>c == eol\<close> is one of \<^verbatim>\<open>int\<close>s.
\<close>

partial_function (option) InStream_readuntil_char_loop ::
  "('i \<Rightarrow> error + int \<times> 'i) \<Rightarrow> 'i \<Rightarrow> byte \<Rightarrow> byte list \<Rightarrow> (error + byte list \<times> 'i) option" where
  "InStream_readuntil_char_loop gc st eol ret =
     (case gc st of
        Inl e \<Rightarrow> Some (Inl e)
      | Inr (c, st') \<Rightarrow>
          (if c = EOF then Some (Inr (ret, st'))
           else if c = sint eol then Some (Inr (ret @ [word_of_int c], st'))
           else InStream_readuntil_char_loop gc st' eol (ret @ [word_of_int c])))"

definition InStream_readuntil_char ::
  "('i \<Rightarrow> error + int \<times> 'i) \<Rightarrow> 'i \<Rightarrow> byte \<Rightarrow> (error + byte list \<times> 'i) option" where
  "InStream_readuntil_char gc st eol = InStream_readuntil_char_loop gc st eol []"

text \<open>
  \<^verbatim>\<open>InStream::readuntil(const char *, size_t)\<close>, lines 69 to 84, with the delimiter of
  \<^verbatim>\<open>neol\<close> bytes as a list; \<^verbatim>\<open>readuntil(std::string const &)\<close> passes the bytes and
  the size of its argument to it. \<open>ends_with\<close> is the test of lines 77 and 78.
\<close>

definition ends_with :: "byte list \<Rightarrow> byte list \<Rightarrow> bool" where
  "ends_with ret eol = (length eol \<le> length ret \<and> drop (length ret - length eol) ret = eol)"

partial_function (option) InStream_readuntil_loop ::
  "('i \<Rightarrow> error + int \<times> 'i) \<Rightarrow> 'i \<Rightarrow> byte list \<Rightarrow> byte list \<Rightarrow> (error + byte list \<times> 'i) option" where
  "InStream_readuntil_loop gc st eol ret =
     (case gc st of
        Inl e \<Rightarrow> Some (Inl e)
      | Inr (c, st') \<Rightarrow>
          (if c = EOF then Some (Inr (ret, st'))
           else if ends_with (ret @ [word_of_int c]) eol then Some (Inr (ret @ [word_of_int c], st'))
           else InStream_readuntil_loop gc st' eol (ret @ [word_of_int c])))"

definition InStream_readuntil ::
  "('i \<Rightarrow> error + int \<times> 'i) \<Rightarrow> 'i \<Rightarrow> byte list \<Rightarrow> (error + byte list \<times> 'i) option" where
  "InStream_readuntil gc st eol = InStream_readuntil_loop gc st eol []"

text \<open>\<^verbatim>\<open>InStream::getline(char)\<close>, lines 91 to 96.\<close>

definition InStream_getline_char ::
  "('i \<Rightarrow> error + int \<times> 'i) \<Rightarrow> 'i \<Rightarrow> byte \<Rightarrow> (error + byte list \<times> 'i) option" where
  "InStream_getline_char gc st eol =
     and_then (InStream_readuntil_char gc st eol)
       (\<lambda>(ret, st'). Some (Inr (if 0 < length ret \<and> last ret = eol then butlast ret else ret, st')))"

text \<open>\<^verbatim>\<open>InStream::getline(const char *, size_t)\<close>, lines 98 to 103.\<close>

definition InStream_getline ::
  "('i \<Rightarrow> error + int \<times> 'i) \<Rightarrow> 'i \<Rightarrow> byte list \<Rightarrow> (error + byte list \<times> 'i) option" where
  "InStream_getline gc st eol =
     and_then (InStream_readuntil gc st eol)
       (\<lambda>(ret, st'). Some (Inr (if ends_with ret eol then take (length ret - length eol) ret else ret, st')))"


section \<open>BufferedInStream\<close>

text \<open>
  The members of the class: \<open>inp\<close> is the state of the wrapped stream \<^verbatim>\<open>in\<close>,
  \<open>in_buf\<close> the block \<^verbatim>\<open>buf\<close> points to, \<open>in_top\<close> and \<open>in_max\<close> the members \<^verbatim>\<open>top\<close>
  and \<^verbatim>\<open>max\<close>.
\<close>

record 'i BufferedInStream =
  inp :: 'i
  in_buf :: "byte list"
  in_top :: nat
  in_max :: nat

definition BufferedInStream_new :: "'i \<Rightarrow> byte list \<Rightarrow> 'i BufferedInStream" where
  "BufferedInStream_new in' mem = \<lparr>inp = in', in_buf = valloc BUFSIZ mem, in_top = 0, in_max = 0\<rparr>"

text \<open>\<^verbatim>\<open>BufferedInStream::refill\<close>, lines 145 to 150.\<close>

definition refill ::
  "('i \<Rightarrow> nat \<Rightarrow> error + nat \<times> byte list \<times> 'i) \<Rightarrow> 'i BufferedInStream \<Rightarrow> error + bool \<times> 'i BufferedInStream" where
  "refill rd st =
     (case rd (inp st) BUFSIZ of
        Inl e \<Rightarrow> Inl e
      | Inr (n, d, in') \<Rightarrow>
          (case poke (in_buf st) 0 d of
             Inl e \<Rightarrow> Inl e
           | Inr b \<Rightarrow> Inr (n \<noteq> 0, st\<lparr>inp := in', in_buf := b, in_top := 0, in_max := n\<rparr>)))"

text \<open>The expression \<^verbatim>\<open>buf[top++]\<close>.\<close>

definition fetch :: "'i BufferedInStream \<Rightarrow> error + byte \<times> 'i BufferedInStream" where
  "fetch st =
     (if in_top st < length (in_buf st)
      then Inr (in_buf st ! in_top st, st\<lparr>in_top := in_top st + 1\<rparr>)
      else Inl Fault)"

text \<open>\<^verbatim>\<open>BufferedInStream::getchar\<close>, lines 159 to 165.\<close>

definition BufferedInStream_getchar ::
  "('i \<Rightarrow> nat \<Rightarrow> error + nat \<times> byte list \<times> 'i) \<Rightarrow> 'i BufferedInStream \<Rightarrow> error + int \<times> 'i BufferedInStream" where
  "BufferedInStream_getchar rd st =
     (case (if in_top st = in_max st then refill rd st else Inr (True, st)) of
        Inl e \<Rightarrow> Inl e
      | Inr (False, st1) \<Rightarrow> Inr (EOF, st1)
      | Inr (True, st1) \<Rightarrow>
          (case fetch st1 of Inl e \<Rightarrow> Inl e | Inr (b, st2) \<Rightarrow> Inr (sint b, st2)))"

text \<open>
  \<^verbatim>\<open>BufferedInStream::read\<close>, lines 167 to 179. \<open>acc\<close> holds the bytes stored so far,
  \<^verbatim>\<open>s[0 .. p - s)\<close>, and \<open>k\<close> counts the bytes still asked for, so that \<^verbatim>\<open>p != s + len\<close>
  is \<open>k \<noteq> 0\<close> and \<^verbatim>\<open>p != s\<close> is \<open>acc \<noteq> []\<close>. The first component of the inner
  \<open>case\<close> tells whether the loop goes on; \<open>False\<close> is the \<^verbatim>\<open>break\<close>.
\<close>

fun BufferedInStream_read_loop ::
  "('i \<Rightarrow> nat \<Rightarrow> error + nat \<times> byte list \<times> 'i) \<Rightarrow> 'i BufferedInStream \<Rightarrow> byte list \<Rightarrow> nat
     \<Rightarrow> error + nat \<times> byte list \<times> 'i BufferedInStream" where
  "BufferedInStream_read_loop rd st acc 0 = Inr (length acc, acc, st)"
| "BufferedInStream_read_loop rd st acc (Suc k) =
     (case (if in_top st = in_max st
            then (if acc \<noteq> [] then Inr (False, st) else refill rd st)
            else Inr (True, st)) of
        Inl e \<Rightarrow> Inl e
      | Inr (False, st1) \<Rightarrow> Inr (length acc, acc, st1)
      | Inr (True, st1) \<Rightarrow>
          (case fetch st1 of
             Inl e \<Rightarrow> Inl e
           | Inr (b, st2) \<Rightarrow> BufferedInStream_read_loop rd st2 (acc @ [b]) k))"

definition BufferedInStream_read ::
  "('i \<Rightarrow> nat \<Rightarrow> error + nat \<times> byte list \<times> 'i) \<Rightarrow> 'i BufferedInStream \<Rightarrow> nat
     \<Rightarrow> error + nat \<times> byte list \<times> 'i BufferedInStream" where
  "BufferedInStream_read rd st len = BufferedInStream_read_loop rd st [] len"

text \<open>\<^verbatim>\<open>BufferedInStream::readn\<close>, lines 181 to 193.\<close>

fun BufferedInStream_readn_loop ::
  "('i \<Rightarrow> nat \<Rightarrow> error + nat \<times> byte list \<times> 'i) \<Rightarrow> 'i BufferedInStream \<Rightarrow> byte list \<Rightarrow> nat
     \<Rightarrow> error + nat \<times> byte list \<times> 'i BufferedInStream" where
  "BufferedInStream_readn_loop rd st acc 0 = Inr (length acc, acc, st)"
| "BufferedInStream_readn_loop rd st acc (Suc k) =
     (case (if in_top st = in_max st then refill rd st else Inr (True, st)) of
        Inl e \<Rightarrow> Inl e
      | Inr (False, st1) \<Rightarrow> Inr (length acc, acc, st1)
      | Inr (True, st1) \<Rightarrow>
          (case fetch st1 of
             Inl e \<Rightarrow> Inl e
           | Inr (b, st2) \<Rightarrow> BufferedInStream_readn_loop rd st2 (acc @ [b]) k))"

definition BufferedInStream_readn ::
  "('i \<Rightarrow> nat \<Rightarrow> error + nat \<times> byte list \<times> 'i) \<Rightarrow> 'i BufferedInStream \<Rightarrow> nat
     \<Rightarrow> error + nat \<times> byte list \<times> 'i BufferedInStream" where
  "BufferedInStream_readn rd st len = BufferedInStream_readn_loop rd st [] len"


section \<open>Auxiliary definitions\<close>

text \<open>
  The first two statements that \<^verbatim>\<open>putchar\<close> and the body of the loop of \<^verbatim>\<open>write\<close>
  execute in the modes Full and Line: the flush of a full buffer and the store.
\<close>

definition flush_full_then_store ::
  "('o \<Rightarrow> byte list \<Rightarrow> (error + 'o) option) \<Rightarrow> 'o BufferedOutStream \<Rightarrow> byte \<Rightarrow> (error + 'o BufferedOutStream) option" where
  "flush_full_then_store wr st c =
     and_then (if out_top st = BUFSIZ then BufferedOutStream_flush wr st else Some (Inr st))
       (\<lambda>st1. store st1 c)"

text \<open>
  Descriptors used in the examples: one that takes up to 4096 bytes in every call, one
  that takes two bytes and then nothing any more, one that takes two bytes, fails once
  with error number 4 and then works again, and one that takes two bytes, then nothing
  once, and then works again.
\<close>

definition os_healthy :: os_out where
  "os_healthy = \<lparr>behaviour = (\<lambda>_. Accept 4096), calls = 0, received = [], errno = 0, closed = False\<rparr>"

definition os_stalls :: os_out where
  "os_stalls = \<lparr>behaviour = (\<lambda>i. if i = 0 then Accept 2 else Accept 0),
     calls = 0, received = [], errno = 0, closed = False\<rparr>"

definition os_interrupted :: os_out where
  "os_interrupted = \<lparr>behaviour = (\<lambda>i. if i = 0 then Accept 2 else if i = 1 then WrFail 4 else Accept 4096),
     calls = 0, received = [], errno = 0, closed = False\<rparr>"

definition os_stalls_once :: os_out where
  "os_stalls_once = \<lparr>behaviour = (\<lambda>i. if i = 0 then Accept 2 else if i = 1 then Accept 0 else Accept 4096),
     calls = 0, received = [], errno = 0, closed = False\<rparr>"


text \<open>
  A stream honours the contract of \<^verbatim>\<open>read\<close> on the states that satisfy \<open>I\<close> when every
  call made there with a length that fits \<^verbatim>\<open>size_t\<close> succeeds, stores exactly as many
  bytes as it reports, reports no more than it was asked for, and leads to a state that
  satisfies \<open>I\<close> again.
\<close>

definition honours :: "('i \<Rightarrow> bool) \<Rightarrow> ('i \<Rightarrow> nat \<Rightarrow> error + nat \<times> byte list \<times> 'i) \<Rightarrow> bool" where
  "honours I rd =
     (\<forall>st k. I st \<and> k < 2 ^ 64 \<longrightarrow>
        (\<exists>m d st'. rd st k = Inr (m, d, st') \<and> m = length d \<and> m \<le> k \<and> I st'))"

text \<open>The descriptors on which no \<^verbatim>\<open>::read\<close> will fail.\<close>

fun is_data :: "rd_event \<Rightarrow> bool" where
  "is_data (Data d) = True"
| "is_data (RdFail e) = False"

definition no_failures :: "os_in \<Rightarrow> bool" where
  "no_failures os = list_all is_data (source os)"

text \<open>The results of \<open>n\<close> successive \<^verbatim>\<open>getchar\<close> calls, and the state they lead to.\<close>

fun getchars :: "('i \<Rightarrow> error + int \<times> 'i) \<Rightarrow> 'i \<Rightarrow> nat \<Rightarrow> error + int list \<times> 'i" where
  "getchars gc st 0 = Inr ([], st)"
| "getchars gc st (Suc n) =
     (case gc st of
        Inl e \<Rightarrow> Inl e
      | Inr (c, st1) \<Rightarrow>
          (case getchars gc st1 n of Inl e \<Rightarrow> Inl e | Inr (cs, st2) \<Rightarrow> Inr (c # cs, st2)))"

text \<open>
  Input descriptors used in the examples: a source of four bytes, the bytes of
  \<^verbatim>\<open>"ab\r\ncd\r\n"\<close>, and the bytes of \<^verbatim>\<open>"x\ny\n"\<close>.
\<close>

definition file4 :: os_in where
  "file4 = \<lparr>source = [Data [1, 2, 3, 4]], reads = 0, in_errno = 0\<rparr>"

definition crlf_input :: os_in where
  "crlf_input = \<lparr>source = [Data [97, 98, 13, 10, 99, 100, 13, 10]], reads = 0, in_errno = 0\<rparr>"

definition lines_input :: os_in where
  "lines_input = \<lparr>source = [Data [120, 10, 121, 10]], reads = 0, in_errno = 0\<rparr>"


text \<open>
  The bytes a descriptor delivers before its next end of stream: the blocks up to the
  first empty one or the first failure.
\<close>

fun avail :: "rd_event list \<Rightarrow> byte list" where
  "avail [] = []"
| "avail (Data d # evs) = (if d = [] then [] else d @ avail evs)"
| "avail (RdFail e # evs) = []"

text \<open>
  A stream delivers the bytes \<open>C\<close> on the states that satisfy \<open>I\<close> when every
  \<^verbatim>\<open>read\<close> made there, for a length \<open>k\<close> that fits \<^verbatim>\<open>size_t\<close>, succeeds, stores the next
  \<open>m \<le> k\<close> of the bytes \<open>C\<close> of the state and reports \<open>m\<close>, leaves the rest of them in
  the stream, and reports 0 for \<open>k > 0\<close> only when none are left: \<open>C\<close> gives the bytes
  ahead, up to the next end of the stream.
\<close>

definition delivers ::
  "('i \<Rightarrow> bool) \<Rightarrow> ('i \<Rightarrow> byte list) \<Rightarrow> ('i \<Rightarrow> nat \<Rightarrow> error + nat \<times> byte list \<times> 'i) \<Rightarrow> bool" where
  "delivers I C rd =
     (\<forall>st k. I st \<and> k < 2 ^ 64 \<longrightarrow>
        (\<exists>m st'. rd st k = Inr (m, take m (C st), st') \<and> m \<le> k \<and> m \<le> length (C st) \<and> I st' \<and>
           (0 < k \<and> C st \<noteq> [] \<longrightarrow> 0 < m) \<and>
           (0 < m \<or> k = 0 \<longrightarrow> C st' = drop m (C st))))"

text \<open>The unread bytes of the buffer, \<^verbatim>\<open>buf[top .. max)\<close>.\<close>

definition unread :: "'i BufferedInStream \<Rightarrow> byte list" where
  "unread st = take (in_max st - in_top st) (drop (in_top st) (in_buf st))"

text \<open>
  Two more input descriptors: four bytes that arrive in two pieces, and the bytes
  97 255 98 10.
\<close>

definition file22 :: os_in where
  "file22 = \<lparr>source = [Data [1, 2], Data [3, 4]], reads = 0, in_errno = 0\<rparr>"

definition ff_input :: os_in where
  "ff_input = \<lparr>source = [Data [97, 255, 98, 10]], reads = 0, in_errno = 0\<rparr>"


section \<open>Facts about the output side\<close>

lemma and_then_simps [simp]:
  "and_then None f = None"
  "and_then (Some (Inl e)) f = Some (Inl e)"
  "and_then (Some (Inr x)) f = f x"
  by (simp_all add: and_then_def)

lemma length_valloc [simp]: "length (valloc n mem) = n"
  by (simp add: valloc_def)

lemma write_loop_append:
  "BufferedOutStream_write_loop wr st (s1 @ s2) =
     and_then (BufferedOutStream_write_loop wr st s1) (\<lambda>st'. BufferedOutStream_write_loop wr st' s2)"
proof (induction s1 arbitrary: st)
  case Nil
  show ?case by simp
next
  case (Cons c s1)
  show ?case
    by (simp add: Cons.IH and_then_def split: option.splits sum.splits)
qed

lemma store_run:
  assumes "out_buf st = Some b" and "out_top st + length s \<le> length b"
    and "out_top st + length s \<le> BUFSIZ"
    and "mode st = LineBuf \<Longrightarrow> 10 \<notin> set s"
  shows "BufferedOutStream_write_loop wr st s =
           Some (Inr (st\<lparr>out_top := out_top st + length s,
                         out_buf := Some (take (out_top st) b @ s @ drop (out_top st + length s) b)\<rparr>))"
  using assms
proof (induction s arbitrary: st b)
  case Nil
  then show ?case by simp
next
  case (Cons c s)
  let ?st2 = "st\<lparr>out_buf := Some (b[out_top st := c]), out_top := out_top st + 1\<rparr>"
  have lt: "out_top st < length b" "out_top st \<noteq> BUFSIZ" using Cons.prems by auto
  have st: "store st c = Some (Inr ?st2)" using Cons.prems lt by (simp add: store_def)
  have nl: "mode_code (mode st) = IOLBF \<Longrightarrow> c \<noteq> 10"
    using Cons.prems(4) by (cases "mode st") (auto simp: IOLBF_def)
  have ih: "BufferedOutStream_write_loop wr ?st2 s =
      Some (Inr (?st2\<lparr>out_top := out_top ?st2 + length s,
         out_buf := Some (take (out_top ?st2) (b[out_top st := c]) @ s @ drop (out_top ?st2 + length s) (b[out_top st := c]))\<rparr>))"
    using Cons.prems by (intro Cons.IH) auto
  have tk: "take (Suc (out_top st)) (b[out_top st := c]) = take (out_top st) b @ [c]"
    using lt by (simp add: take_Suc_conv_app_nth)
  show ?case
    using lt nl st ih tk by (auto simp del: mode_code.simps)
qed

lemma flush_Inr:
  assumes "BufferedOutStream_flush wr st = Some (Inr st1)" and "pending st = Inr p"
  shows "wr (out st) p = Some (Inr (out st1)) \<and> st1 = st\<lparr>out := out st1, out_top := 0\<rparr>"
  using assms by (auto simp: BufferedOutStream_flush_def and_then_def split: option.splits sum.splits)

lemma pending_flushed:
  "pending st = Inr p \<Longrightarrow> pending (st\<lparr>out := o', out_top := 0\<rparr>) = Inr []"
  by (auto simp: pending_def split: option.splits if_splits)

lemma store_Inr:
  assumes "store st c = Some (Inr st2)" and "pending st = Inr p"
  shows "pending st2 = Inr (p @ [c]) \<and> out st2 = out st \<and> mode st2 = mode st"
  using assms
  by (auto simp: store_def pending_def take_Suc_conv_app_nth split: option.splits if_splits)

lemma new_full:
  "BufferedOutStream_new o' FullBuf None mem = \<lparr>out = o', out_top = 0, mode = FullBuf, out_buf = Some (valloc 4096 mem)\<rparr>"
  by (simp add: BufferedOutStream_new_def IONBF_def)


lemma new_line:
  "BufferedOutStream_new o' LineBuf None mem = \<lparr>out = o', out_top = 0, mode = LineBuf, out_buf = Some (valloc 4096 mem)\<rparr>"
  by (simp add: BufferedOutStream_new_def IONBF_def)

lemma and_then_Inr:
  "and_then r f = Some (Inr y) \<longleftrightarrow> (\<exists>x. r = Some (Inr x) \<and> f x = Some (Inr y))"
  by (auto simp: and_then_def split: option.splits sum.splits)

lemma and_then_assoc:
  "and_then (and_then r f) g = and_then r (\<lambda>x. and_then (f x) g)"
  by (auto simp: and_then_def split: option.splits sum.splits)

lemma and_then_return [simp]: "and_then r (\<lambda>x. Some (Inr x)) = r"
  by (auto simp: and_then_def split: option.splits sum.splits)

lemma write_loop_Cons_putchar:
  "mode_code (mode st) \<noteq> IONBF \<Longrightarrow>
     BufferedOutStream_write_loop wr st (c # s) =
       and_then (BufferedOutStream_putchar wr st c) (\<lambda>st'. BufferedOutStream_write_loop wr st' s)"
  by (simp add: BufferedOutStream_putchar_def and_then_assoc)

lemma feed_append:
  "feed wr o' (cs1 @ cs2) = and_then (feed wr o' cs1) (\<lambda>o''. feed wr o'' cs2)"
  by (induction cs1 arbitrary: o') (simp_all add: and_then_assoc)

lemma flush_inv:
  assumes "BufferedOutStream_flush wr st = Some (Inr st1)" and "pending st = Inr p"
  shows "feed wr (out st) [p] = Some (Inr (out st1)) \<and> pending st1 = Inr [] \<and> mode st1 = mode st"
proof -
  from flush_Inr [OF assms]
  have w: "wr (out st) p = Some (Inr (out st1))" and e: "st1 = st\<lparr>out := out st1, out_top := 0\<rparr>"
    by blast+
  have "pending (st\<lparr>out := out st1, out_top := 0\<rparr>) = Inr []"
    using assms(2) by (rule pending_flushed)
  with e have "pending st1 = Inr []" by simp
  moreover have "mode st1 = mode st" by (subst e) simp
  ultimately show ?thesis using w by simp
qed

lemma putchar_inv:
  assumes "mode_code (mode st) \<noteq> IONBF"
    and "BufferedOutStream_putchar wr st c = Some (Inr st')"
    and "pending st = Inr p"
  shows "\<exists>cs q. feed wr (out st) cs = Some (Inr (out st')) \<and> pending st' = Inr q \<and>
           concat cs @ q = p @ [c] \<and> mode st' = mode st \<and>
           (mode_code (mode st) = IOLBF \<and> c = 10 \<longrightarrow> q = [])"
proof -
  from assms(1,2) obtain st1 st2 where
      a: "(if out_top st = BUFSIZ then BufferedOutStream_flush wr st else Some (Inr st)) = Some (Inr st1)"
    and b: "store st1 c = Some (Inr st2)"
    and c: "(if mode_code (mode st2) = IOLBF \<and> c = 10 then BufferedOutStream_flush wr st2 else Some (Inr st2)) = Some (Inr st')"
    by (auto simp: BufferedOutStream_putchar_def and_then_Inr)
  have "\<exists>cs1 q1. feed wr (out st) cs1 = Some (Inr (out st1)) \<and> pending st1 = Inr q1 \<and>
          concat cs1 @ q1 = p \<and> mode st1 = mode st"
  proof (cases "out_top st = BUFSIZ")
    case True
    with a have "BufferedOutStream_flush wr st = Some (Inr st1)" by simp
    from flush_inv [OF this assms(3)] show ?thesis
      by (intro exI [of _ "[p]"] exI [of _ "[]"]) simp
  next
    case False
    with a have "st1 = st" by simp
    then show ?thesis using assms(3)
      by (intro exI [of _ "[]"] exI [of _ p]) simp
  qed
  then obtain cs1 q1 where f1: "feed wr (out st) cs1 = Some (Inr (out st1))"
    and p1: "pending st1 = Inr q1" and c1: "concat cs1 @ q1 = p" and m1: "mode st1 = mode st"
    by blast
  from store_Inr [OF b p1]
  have p2: "pending st2 = Inr (q1 @ [c])" and o2: "out st2 = out st1" and m2: "mode st2 = mode st1"
    by blast+
  show ?thesis
  proof (cases "mode_code (mode st2) = IOLBF \<and> c = 10")
    case True
    with c have "BufferedOutStream_flush wr st2 = Some (Inr st')" by simp
    from flush_inv [OF this p2]
    have f2: "feed wr (out st1) [q1 @ [c]] = Some (Inr (out st'))"
      and p3: "pending st' = Inr []" and m3: "mode st' = mode st2"
      using o2 by simp_all
    have "feed wr (out st) (cs1 @ [q1 @ [c]]) = Some (Inr (out st'))"
      using f1 f2 by (simp add: feed_append)
    then show ?thesis using p3 m3 m2 m1 c1
      by (intro exI [of _ "cs1 @ [q1 @ [c]]"] exI [of _ "[]"]) auto
  next
    case False
    with c have "st' = st2" by simp
    then show ?thesis using f1 p2 o2 m2 m1 c1 False
      by (intro exI [of _ cs1] exI [of _ "q1 @ [c]"]) auto
  qed
qed

lemma write_loop_inv:
  assumes "mode_code (mode st) \<noteq> IONBF"
    and "BufferedOutStream_write_loop wr st s = Some (Inr st')"
    and "pending st = Inr p"
  shows "\<exists>cs q. feed wr (out st) cs = Some (Inr (out st')) \<and> pending st' = Inr q \<and>
           concat cs @ q = p @ s \<and> mode st' = mode st \<and>
           (mode_code (mode st) = IOLBF \<longrightarrow> (\<forall>i<length s. s ! i = 10 \<longrightarrow> length q < length s - i))"
  using assms
proof (induction s arbitrary: st p)
  case Nil
  then show ?case by (intro exI [of _ "[]"] exI [of _ p]) simp
next
  case (Cons c s)
  from Cons.prems(1,2) obtain st1 where
      pc: "BufferedOutStream_putchar wr st c = Some (Inr st1)"
    and rest: "BufferedOutStream_write_loop wr st1 s = Some (Inr st')"
    unfolding write_loop_Cons_putchar [OF Cons.prems(1)] and_then_Inr by blast
  from putchar_inv [OF Cons.prems(1) pc Cons.prems(3)] obtain cs1 q1 where
      f1: "feed wr (out st) cs1 = Some (Inr (out st1))" and p1: "pending st1 = Inr q1"
    and c1: "concat cs1 @ q1 = p @ [c]" and m1: "mode st1 = mode st"
    and n1: "mode_code (mode st) = IOLBF \<and> c = 10 \<longrightarrow> q1 = []"
    by blast
  have "mode_code (mode st1) \<noteq> IONBF" using m1 Cons.prems(1) by simp
  from Cons.IH [OF this rest p1] obtain cs2 q2 where
      f2: "feed wr (out st1) cs2 = Some (Inr (out st'))" and p2: "pending st' = Inr q2"
    and c2: "concat cs2 @ q2 = q1 @ s" and m2: "mode st' = mode st1"
    and n2: "mode_code (mode st1) = IOLBF \<longrightarrow> (\<forall>i<length s. s ! i = 10 \<longrightarrow> length q2 < length s - i)"
    by blast
  have f: "feed wr (out st) (cs1 @ cs2) = Some (Inr (out st'))"
    using f1 f2 by (simp add: feed_append)
  have cc: "concat (cs1 @ cs2) @ q2 = p @ c # s"
    using c1 c2 by (metis append.assoc append_Cons append_Nil concat_append)
  have nl: "length q2 < length (c # s) - i"
    if l: "mode_code (mode st) = IOLBF" and i: "i < length (c # s)" and x: "(c # s) ! i = 10" for i
  proof (cases i)
    case 0
    with x l n1 have "q1 = []" by simp
    with c2 have "length (concat cs2) + length q2 = length s"
      by (metis append_Nil length_append)
    then show ?thesis using 0 by simp
  next
    case (Suc j)
    with i x have "j < length s" "s ! j = 10" by simp_all
    with n2 l m1 have "length q2 < length s - j" by simp
    then show ?thesis using Suc by simp
  qed
  show ?case
    using f p2 cc m2 m1 nl
    by (intro exI [of _ "cs1 @ cs2"] exI [of _ q2]) (simp del: feed.simps)
qed

lemma size_t_of_nat [simp]: "n < 2 ^ 64 \<Longrightarrow> size_t_of (int n) = n"
  by (simp add: size_t_of_def nat_mod_distrib nat_power_eq)

lemma size_t_of_minus_one [simp]: "size_t_of (- 1) = 18446744073709551615"
  by (simp add: size_t_of_def)

lemma unix_write_whole:
  assumes "behaviour os (calls os) = Accept k" and "length s \<le> k" and "length s < 2 ^ 64"
    and "\<not> closed os"
  shows "UnixFileOutStream_write os s =
           Some (Inr (if s = [] then os else os\<lparr>calls := Suc (calls os), received := received os @ s\<rparr>))"
proof (cases "s = []")
  case True
  then show ?thesis by (simp add: UnixFileOutStream_write_def)
next
  case False
  let ?os = "os\<lparr>calls := Suc (calls os), received := received os @ s\<rparr>"
  have w: "os_write os s = (int (length s), ?os)"
    using assms by (simp add: os_write_def min_absorb2)
  have l: "UnixFileOutStream_write_loop ?os s (length s) = Some (Inr ?os)"
    by (subst UnixFileOutStream_write_loop.simps) simp
  show ?thesis
    using False assms(3) w l by (simp add: UnixFileOutStream_write_def)
qed

lemma zero_writes_never_return:
  assumes "UnixFileOutStream_write_loop os s written = Some y"
  shows "\<not> (written < length s \<and> written < 2 ^ 64 \<and> \<not> closed os \<and> (\<forall>i\<ge>calls os. behaviour os i = Accept 0))"
proof (rule UnixFileOutStream_write_loop.raw_induct
    [where P = "\<lambda>os s written y. \<not> (written < length s \<and> written < 2 ^ 64 \<and> \<not> closed os \<and> (\<forall>i\<ge>calls os. behaviour os i = Accept 0))",
     OF _ assms])
  fix loop :: "os_out \<Rightarrow> byte list \<Rightarrow> nat \<Rightarrow> (error + os_out) option"
  fix os s written y
  assume ih: "\<And>os s written y. loop os s written = Some y \<Longrightarrow>
      \<not> (written < length s \<and> written < 2 ^ 64 \<and> \<not> closed os \<and> (\<forall>i\<ge>calls os. behaviour os i = Accept 0))"
  assume eq: "(if written = length s then Some (Inr os)
      else if length s < written then Some (Inl Fault)
      else (case os_write os (drop written s) of
              (r, os') \<Rightarrow>
                (if size_t_of r < 0 then Some (Inl (SystemError (errno os')))
                 else loop os' s ((written + size_t_of r) mod 2 ^ 64)))) = Some y"
  show "\<not> (written < length s \<and> written < 2 ^ 64 \<and> \<not> closed os \<and> (\<forall>i\<ge>calls os. behaviour os i = Accept 0))"
  proof
    assume h: "written < length s \<and> written < 2 ^ 64 \<and> \<not> closed os \<and> (\<forall>i\<ge>calls os. behaviour os i = Accept 0)"
    then have b: "behaviour os (calls os) = Accept 0" by simp
    let ?os = "os\<lparr>calls := Suc (calls os), received := received os @ take 0 (drop written s)\<rparr>"
    have w: "os_write os (drop written s) = (0, ?os)"
      using b h by (simp add: os_write_def)
    have m: "(written + size_t_of 0) mod 2 ^ 64 = written"
      using h by (simp add: size_t_of_def)
    have n: "\<not> size_t_of 0 < 0" by simp
    have c: "written \<noteq> length s" "\<not> length s < written" using h by auto
    have l: "loop ?os s written = Some y"
      using eq unfolding w by (simp only: c if_False split n m)
    have z: "\<forall>i\<ge>calls ?os. behaviour ?os i = Accept 0"
      using h by simp
    have nc: "\<not> closed ?os" using h by simp
    from ih [OF l] z nc h show False by blast
  qed
qed

lemma pending_mode_update [simp]: "pending (st\<lparr>mode := m\<rparr>) = pending st"
  by (simp add: pending_def split: option.split)

lemma flush_mode_update:
  "BufferedOutStream_flush wr (st\<lparr>mode := m\<rparr>) =
     and_then (BufferedOutStream_flush wr st) (\<lambda>st1. Some (Inr (st1\<lparr>mode := m\<rparr>)))"
  by (cases st) (simp add: BufferedOutStream_flush_def pending_def and_then_assoc split: option.split)

lemma store_mode_update:
  "store (st\<lparr>mode := m\<rparr>) c = and_then (store st c) (\<lambda>st1. Some (Inr (st1\<lparr>mode := m\<rparr>)))"
  by (cases st; cases "out_buf st") (simp_all add: store_def)

lemma flush_mode: "BufferedOutStream_flush wr st = Some (Inr st1) \<Longrightarrow> mode st1 = mode st"
  by (auto simp: BufferedOutStream_flush_def and_then_Inr split: sum.splits)

lemma store_mode: "store st c = Some (Inr st1) \<Longrightarrow> mode st1 = mode st"
  by (auto simp: store_def split: option.splits if_splits)

lemma flush_full_then_store_mode_update:
  "flush_full_then_store wr (st\<lparr>mode := m\<rparr>) c = and_then (flush_full_then_store wr st c) (\<lambda>st1. Some (Inr (st1\<lparr>mode := m\<rparr>)))"
  by (simp add: flush_full_then_store_def flush_mode_update store_mode_update and_then_assoc)

lemma and_then_cong_Inr:
  "(\<And>x. r = Some (Inr x) \<Longrightarrow> f x = g x) \<Longrightarrow> and_then r f = and_then r g"
  by (auto simp: and_then_def split: option.splits sum.splits)

lemma putchar_unfold:
  assumes "mode_code (mode st) \<noteq> IONBF"
  shows "BufferedOutStream_putchar wr st c =
     and_then (flush_full_then_store wr st c)
       (\<lambda>st2. if mode_code (mode st) = IOLBF \<and> c = 10 then BufferedOutStream_flush wr st2 else Some (Inr st2))"
proof -
  have "and_then (if out_top st = BUFSIZ then BufferedOutStream_flush wr st else Some (Inr st))
          (\<lambda>st1. and_then (store st1 c)
             (\<lambda>st2. if mode_code (mode st2) = IOLBF \<and> c = 10
                     then BufferedOutStream_flush wr st2 else Some (Inr st2))) =
        and_then (if out_top st = BUFSIZ then BufferedOutStream_flush wr st else Some (Inr st))
          (\<lambda>st1. and_then (store st1 c)
             (\<lambda>st2. if mode_code (mode st) = IOLBF \<and> c = 10
                     then BufferedOutStream_flush wr st2 else Some (Inr st2)))"
  proof (rule and_then_cong_Inr)
    fix st1
    assume "(if out_top st = BUFSIZ then BufferedOutStream_flush wr st else Some (Inr st)) = Some (Inr st1)"
    then have m1: "mode st1 = mode st"
      by (auto dest: flush_mode split: if_splits)
    show "and_then (store st1 c)
             (\<lambda>st2. if mode_code (mode st2) = IOLBF \<and> c = 10
                     then BufferedOutStream_flush wr st2 else Some (Inr st2)) =
          and_then (store st1 c)
             (\<lambda>st2. if mode_code (mode st) = IOLBF \<and> c = 10
                     then BufferedOutStream_flush wr st2 else Some (Inr st2))"
    proof (rule and_then_cong_Inr)
      fix st2
      assume "store st1 c = Some (Inr st2)"
      then have "mode st2 = mode st" using m1 by (simp add: store_mode)
      then show "(if mode_code (mode st2) = IOLBF \<and> c = 10
                     then BufferedOutStream_flush wr st2 else Some (Inr st2)) =
                 (if mode_code (mode st) = IOLBF \<and> c = 10
                     then BufferedOutStream_flush wr st2 else Some (Inr st2))"
        by simp
    qed
  qed
  then show ?thesis
    using assms by (simp add: BufferedOutStream_putchar_def flush_full_then_store_def and_then_assoc)
qed

lemma putchar_full:
  "BufferedOutStream_putchar wr (st\<lparr>mode := FullBuf\<rparr>) c =
     and_then (flush_full_then_store wr st c) (\<lambda>st1. Some (Inr (st1\<lparr>mode := FullBuf\<rparr>)))"
  by (simp add: putchar_unfold IONBF_def IOLBF_def flush_full_then_store_mode_update)

lemma putchar_line:
  "BufferedOutStream_putchar wr (st\<lparr>mode := LineBuf\<rparr>) c =
     and_then (flush_full_then_store wr st c) (\<lambda>st1. if c = 10 then BufferedOutStream_flush wr (st1\<lparr>mode := LineBuf\<rparr>)
               else Some (Inr (st1\<lparr>mode := LineBuf\<rparr>)))"
  by (simp add: putchar_unfold IONBF_def IOLBF_def flush_full_then_store_mode_update and_then_assoc cong: if_cong)

lemma putchar_line_as_full:
  assumes "mode st = LineBuf"
  shows "BufferedOutStream_putchar wr st c =
     and_then (BufferedOutStream_putchar wr (st\<lparr>mode := FullBuf\<rparr>) c)
       (\<lambda>st1. if c = 10 then BufferedOutStream_flush wr (st1\<lparr>mode := LineBuf\<rparr>)
               else Some (Inr (st1\<lparr>mode := LineBuf\<rparr>)))"
proof -
  have e: "st\<lparr>mode := LineBuf\<rparr> = st" using assms by simp
  have "BufferedOutStream_putchar wr (st\<lparr>mode := LineBuf\<rparr>) c =
     and_then (BufferedOutStream_putchar wr (st\<lparr>mode := FullBuf\<rparr>) c)
       (\<lambda>st1. if c = 10 then BufferedOutStream_flush wr (st1\<lparr>mode := LineBuf\<rparr>)
               else Some (Inr (st1\<lparr>mode := LineBuf\<rparr>)))"
    by (simp add: putchar_line putchar_full and_then_assoc cong: if_cong)
  then show ?thesis by (simp only: e)
qed


section \<open>The claims about the write buffer and the output descriptor\<close>

text \<open>
  C1. The claim: in Full mode the buffer is flushed, and \<^verbatim>\<open>top\<close> reset to 0, when
  \<^verbatim>\<open>top\<close> reaches the size of the allocated buffer. The constructor allocates 4096
  bytes, and the flush is tied to \<^verbatim>\<open>top == BUFSIZ\<close>. What the code does: after 4096
  bytes written to a freshly constructed Full-mode stream, \<^verbatim>\<open>top\<close> is 4096, the wrapped
  stream is still untouched and all 4096 bytes are pending; a further \<^verbatim>\<open>putchar\<close> does
  not flush but stores at \<^verbatim>\<open>buf[4096]\<close>, one byte past the block.
\<close>

theorem full_mode_passes_capacity_unflushed:
  "\<exists>st. BufferedOutStream_write wr (BufferedOutStream_new o' FullBuf None mem) (replicate 4096 c) = Some (Inr st)
      \<and> out_top st = 4096 \<and> out st = o' \<and> pending st = Inr (replicate 4096 c)
      \<and> BufferedOutStream_putchar wr st c' = Some (Inl Fault)"
proof -
  let ?new = "BufferedOutStream_new o' FullBuf None mem :: 'a BufferedOutStream"
  let ?st = "?new\<lparr>out_top := 4096, out_buf := Some (replicate 4096 c)\<rparr>"
  have run: "BufferedOutStream_write_loop wr ?new (replicate 4096 c) = Some (Inr ?st)"
    using store_run [of ?new "valloc 4096 mem" "replicate 4096 c" wr]
    by (simp add: new_full BUFSIZ_def)
  have w: "BufferedOutStream_write wr ?new (replicate 4096 c) = Some (Inr ?st)"
    using run by (simp add: BufferedOutStream_write_def new_full IONBF_def)
  have p: "BufferedOutStream_putchar wr ?st c' = Some (Inl Fault)"
    by (simp add: BufferedOutStream_putchar_def new_full IONBF_def BUFSIZ_def store_def)
  have "out_top ?st = 4096 \<and> out ?st = o' \<and> pending ?st = Inr (replicate 4096 c)"
    by (simp add: new_full pending_def)
  with w p show ?thesis by blast
qed


text \<open>
  C2. The claim: \<^verbatim>\<open>top\<close> never exceeds the size of the allocated buffer and every byte
  is stored inside it. What the code does: every \<^verbatim>\<open>write\<close> of more than 4096 bytes to a
  freshly constructed Full-mode stream stores outside the 4096 bytes that the constructor
  allocated, whatever the wrapped stream is.
\<close>

theorem write_overruns_allocated_buffer:
  assumes "4096 < length s"
  shows "BufferedOutStream_write wr (BufferedOutStream_new o' FullBuf None mem) s = Some (Inl Fault)"
proof -
  let ?new = "BufferedOutStream_new o' FullBuf None mem :: 'a BufferedOutStream"
  let ?s1 = "take 4096 s"
  let ?st = "?new\<lparr>out_top := 4096, out_buf := Some (?s1)\<rparr>"
  obtain c s2 where s: "s = ?s1 @ c # s2"
    using assms by (metis append_take_drop_id drop_eq_Nil2 list.exhaust not_le)
  have len: "length ?s1 = 4096" using assms by simp
  have run: "BufferedOutStream_write_loop wr ?new ?s1 = Some (Inr ?st)"
    using store_run [of ?new "valloc 4096 mem" ?s1 wr] len
    by (simp add: new_full BUFSIZ_def)
  have step: "BufferedOutStream_write_loop wr ?st (c # s2) = Some (Inl Fault)"
    using len by (simp add: new_full BUFSIZ_def store_def)
  have "BufferedOutStream_write_loop wr ?new s = Some (Inl Fault)"
    by (subst s, subst write_loop_append) (simp only: run and_then_simps step)
  then show ?thesis
    by (simp add: BufferedOutStream_write_def new_full IONBF_def)
qed


theorem write_overruns_allocated_buffer_witness:
  "4096 < length (replicate 4097 (0 :: byte)) \<and>
   BufferedOutStream_write UnixFileOutStream_write
     (BufferedOutStream_new os_healthy FullBuf None []) (replicate 4097 0) = Some (Inl Fault)"
  using write_overruns_allocated_buffer [of "replicate 4097 0" UnixFileOutStream_write os_healthy "[]"]
  by simp

text \<open>
  C3. The claim: any single \<^verbatim>\<open>::write\<close> that transfers 0 bytes while bytes remain
  raises the broken-pipe failure. What the code does: only the first \<^verbatim>\<open>::write\<close> of a
  call is tested for 0. When the descriptor takes two of five bytes and nothing afterwards,
  the call neither fails nor returns; when it takes nothing once and then works again, the
  call returns normally after three system calls.
\<close>

theorem zero_byte_write_in_loop_is_retried:
  "UnixFileOutStream_write os_stalls [1, 2, 3, 4, 5] = None
   \<and> UnixFileOutStream_write os_stalls_once [1, 2, 3, 4, 5] =
       Some (Inr (os_stalls_once\<lparr>calls := 3, received := [1, 2, 3, 4, 5]\<rparr>))"
proof
  let ?os = "os_stalls\<lparr>calls := Suc 0, received := [1, 2]\<rparr>"
  have w: "os_write os_stalls [1, 2, 3, 4, 5] = (2, ?os)"
    by (simp add: os_write_def os_stalls_def)
  have "UnixFileOutStream_write_loop ?os [1, 2, 3, 4, 5] 2 = None"
  proof (cases "UnixFileOutStream_write_loop ?os [1, 2, 3, 4, 5] 2")
    case None
    then show ?thesis .
  next
    case (Some y)
    from zero_writes_never_return [OF this] show ?thesis
      by (simp add: os_stalls_def)
  qed
  then show "UnixFileOutStream_write os_stalls [1, 2, 3, 4, 5] = None"
    by (simp add: UnixFileOutStream_write_def w size_t_of_def)
next
  show "UnixFileOutStream_write os_stalls_once [1, 2, 3, 4, 5] =
       Some (Inr (os_stalls_once\<lparr>calls := 3, received := [1, 2, 3, 4, 5]\<rparr>))"
    apply (simp add: UnixFileOutStream_write_def os_write_def os_stalls_once_def size_t_of_def)
    apply (subst UnixFileOutStream_write_loop.simps)
    apply (simp add: os_write_def size_t_of_def)
    apply (subst UnixFileOutStream_write_loop.simps)
    apply (simp add: os_write_def size_t_of_def)
    apply (subst UnixFileOutStream_write_loop.simps)
    apply (simp add: os_write_def size_t_of_def)
    done
qed


text \<open>
  Line mode, for the calls that return. \<^verbatim>\<open>putchar\<close> does what it does in Full mode and
  flushes in addition when the byte just stored is a newline. Whenever a \<^verbatim>\<open>write\<close> call
  returns and its argument \<open>s\<close> has a newline at position \<open>i\<close>, the wrapped stream has
  by then been handed, block after block and in order, the bytes that were pending before
  the call followed by \<open>s[0 .. k)\<close> for some \<open>k > i\<close>; the rest of \<open>s\<close> is what is
  pending afterwards.
\<close>

lemma line_mode_write_feeds_through_newline:
  assumes "mode st = LineBuf" and "pending st = Inr p"
  shows "BufferedOutStream_putchar wr st c =
           and_then (BufferedOutStream_putchar wr (st\<lparr>mode := FullBuf\<rparr>) c)
             (\<lambda>st1. if c = 10 then BufferedOutStream_flush wr (st1\<lparr>mode := LineBuf\<rparr>)
                     else Some (Inr (st1\<lparr>mode := LineBuf\<rparr>)))
       \<and> (\<forall>s i st'. i < length s \<and> s ! i = 10 \<and> BufferedOutStream_write wr st s = Some (Inr st') \<longrightarrow>
            (\<exists>cs k. i < k \<and> k \<le> length s \<and> feed wr (out st) cs = Some (Inr (out st')) \<and>
                    concat cs = p @ take k s \<and> pending st' = Inr (drop k s)))"
proof (intro conjI allI impI)
  show "BufferedOutStream_putchar wr st c =
           and_then (BufferedOutStream_putchar wr (st\<lparr>mode := FullBuf\<rparr>) c)
             (\<lambda>st1. if c = 10 then BufferedOutStream_flush wr (st1\<lparr>mode := LineBuf\<rparr>)
                     else Some (Inr (st1\<lparr>mode := LineBuf\<rparr>)))"
    using assms(1) by (rule putchar_line_as_full)
next
  fix s i st'
  assume a: "i < length s \<and> s ! i = 10 \<and> BufferedOutStream_write wr st s = Some (Inr st')"
  have m: "mode_code (mode st) \<noteq> IONBF" "mode_code (mode st) = IOLBF"
    using assms(1) by (simp_all add: IONBF_def IOLBF_def)
  from a m have w: "BufferedOutStream_write_loop wr st s = Some (Inr st')"
    by (simp add: BufferedOutStream_write_def)
  from write_loop_inv [OF m(1) w assms(2)] obtain cs q where
      f: "feed wr (out st) cs = Some (Inr (out st'))" and pq: "pending st' = Inr q"
    and c: "concat cs @ q = p @ s"
    and n: "mode_code (mode st) = IOLBF \<longrightarrow> (\<forall>i<length s. s ! i = 10 \<longrightarrow> length q < length s - i)"
    by blast
  from n m(2) a have lq: "length q < length s - i" by blast
  let ?k = "length s - length q"
  have "concat cs @ q = (p @ take ?k s) @ drop ?k s" using c by simp
  moreover have "length q = length (drop ?k s)" using lq by simp
  ultimately have "concat cs = p @ take ?k s \<and> q = drop ?k s"
    by (metis append_eq_append_conv)
  then show "\<exists>cs k. i < k \<and> k \<le> length s \<and> feed wr (out st) cs = Some (Inr (out st')) \<and>
                    concat cs = p @ take k s \<and> pending st' = Inr (drop k s)"
    using f pq lq by (intro exI [of _ cs] exI [of _ ?k]) auto
qed

text \<open>
  C8. The claim: in Line mode the buffer is flushed when it fills to capacity, and after a
  \<^verbatim>\<open>write\<close> whose argument has a newline at position \<open>i\<close> the wrapped stream has received
  the bytes up to \<open>i\<close>. What the code does with the buffer that the constructor allocates
  (4096 bytes, as for the standard stream \<^verbatim>\<open>mout\<close>): after 4096 bytes without a newline
  \<^verbatim>\<open>top\<close> is 4096, nothing has been flushed and a further \<^verbatim>\<open>putchar\<close> stores at
  \<^verbatim>\<open>buf[4096]\<close>; a \<^verbatim>\<open>write\<close> of 4097 bytes followed by a newline stores outside the
  block before it reaches the newline, whatever the wrapped stream is.
\<close>

theorem line_mode_overruns_buffer_before_newline:
  "BufferedOutStream_write wr (BufferedOutStream_new o' LineBuf None mem) (replicate 4096 97 @ [97, 10]) =
     Some (Inl Fault)
   \<and> (\<exists>st. BufferedOutStream_write wr (BufferedOutStream_new o' LineBuf None mem) (replicate 4096 97) =
          Some (Inr st) \<and>
        out_top st = 4096 \<and> out st = o' \<and> pending st = Inr (replicate 4096 97) \<and>
        BufferedOutStream_putchar wr st 97 = Some (Inl Fault))"
proof -
  let ?new = "BufferedOutStream_new o' LineBuf None mem :: 'a BufferedOutStream"
  let ?s = "replicate 4096 (97 :: byte)"
  let ?st = "?new\<lparr>out_top := 4096, out_buf := Some ?s\<rparr>"
  have nl: "(10 :: byte) \<notin> set ?s" by simp
  have run: "BufferedOutStream_write_loop wr ?new ?s = Some (Inr ?st)"
    using store_run [of ?new "valloc 4096 mem" ?s wr] nl
    by (simp add: new_line BUFSIZ_def)
  have w: "BufferedOutStream_write wr ?new ?s = Some (Inr ?st)"
    using run by (simp add: BufferedOutStream_write_def new_line IONBF_def)
  have step: "BufferedOutStream_write_loop wr ?st [97, 10] = Some (Inl Fault)"
    by (simp add: new_line BUFSIZ_def store_def)
  have "BufferedOutStream_write_loop wr ?new (?s @ [97, 10]) = Some (Inl Fault)"
    by (subst write_loop_append) (simp only: run and_then_simps step)
  then have over: "BufferedOutStream_write wr ?new (?s @ [97, 10]) = Some (Inl Fault)"
    by (simp add: BufferedOutStream_write_def new_line IONBF_def)
  have p: "BufferedOutStream_putchar wr ?st 97 = Some (Inl Fault)"
    by (simp add: BufferedOutStream_putchar_def new_line IONBF_def BUFSIZ_def store_def)
  have q: "out_top ?st = 4096 \<and> out ?st = o' \<and> pending ?st = Inr ?s"
    by (simp add: new_line pending_def)
  from w p q have "\<exists>st. BufferedOutStream_write wr ?new ?s = Some (Inr st) \<and>
        out_top st = 4096 \<and> out st = o' \<and> pending st = Inr ?s \<and>
        BufferedOutStream_putchar wr st 97 = Some (Inl Fault)"
    by (intro exI [of _ ?st] conjI) simp_all
  with over show ?thesis by (intro conjI)
qed

text \<open>
  C9. The destructor hands the pending bytes \<^verbatim>\<open>buf[0 .. top)\<close> to the wrapped stream
  and only then destroys the wrapped stream; when the wrapped stream fails to take them
  the destructor does not return normally.
\<close>

theorem destructor_flushes_pending:
  "(pending st = Inr p \<longrightarrow>
      BufferedOutStream_dtor wr dtor st = and_then (wr (out st) p) (\<lambda>out'. Some (Inr (dtor out'))))
   \<and> (pending ust = Inr q \<and> \<not> closed (out ust) \<and> behaviour (out ust) (calls (out ust)) = Accept k \<and>
        length q \<le> k \<and> length q < 2 ^ 64 \<longrightarrow>
      (\<exists>os'. BufferedOutStream_dtor UnixFileOutStream_write UnixFileOutStream_dtor ust = Some (Inr os') \<and>
          received os' = received (out ust) @ q \<and> closed os'))"
proof (intro conjI impI)
  show g: "BufferedOutStream_dtor wr dtor st = and_then (wr (out st) p) (\<lambda>out'. Some (Inr (dtor out')))"
    if "pending st = Inr p" for wr :: "'b \<Rightarrow> byte list \<Rightarrow> (error + 'b) option" and dtor st p
    using that by (simp add: BufferedOutStream_dtor_def BufferedOutStream_flush_def and_then_assoc)
  assume a: "pending ust = Inr q \<and> \<not> closed (out ust) \<and> behaviour (out ust) (calls (out ust)) = Accept k \<and>
        length q \<le> k \<and> length q < 2 ^ 64"
  let ?os = "out ust"
  let ?os1 = "if q = [] then ?os else ?os\<lparr>calls := Suc (calls ?os), received := received ?os @ q\<rparr>"
  have w: "UnixFileOutStream_write ?os q = Some (Inr ?os1)"
    using a unix_write_whole [of ?os k q] by blast
  have "BufferedOutStream_dtor UnixFileOutStream_write UnixFileOutStream_dtor ust =
      Some (Inr (UnixFileOutStream_dtor ?os1))"
    using a w by (simp add: g)
  moreover have "received (UnixFileOutStream_dtor ?os1) = received ?os @ q"
    by (simp add: UnixFileOutStream_dtor_def os_close_def)
  moreover have "closed (UnixFileOutStream_dtor ?os1)"
    by (simp add: UnixFileOutStream_dtor_def os_close_def)
  ultimately show "\<exists>os'. BufferedOutStream_dtor UnixFileOutStream_write UnixFileOutStream_dtor ust = Some (Inr os') \<and>
          received os' = received (out ust) @ q \<and> closed os'"
    by blast
qed

theorem destructor_flushes_pending_witness:
  "pending \<lparr>out = os_healthy, out_top = 2, mode = FullBuf, out_buf = Some [104, 105, 0, 0]\<rparr> = Inr [104, 105] \<and>
   \<not> closed os_healthy \<and> behaviour os_healthy (calls os_healthy) = Accept 4096 \<and>
   length [104, 105 :: byte] \<le> 4096 \<and> length [104, 105 :: byte] < 2 ^ 64 \<and>
   BufferedOutStream_dtor UnixFileOutStream_write UnixFileOutStream_dtor
       \<lparr>out = os_healthy, out_top = 2, mode = FullBuf, out_buf = Some [104, 105, 0, 0]\<rparr> =
     and_then (UnixFileOutStream_write os_healthy [104, 105])
       (\<lambda>out'. Some (Inr (UnixFileOutStream_dtor out'))) \<and>
   (\<exists>os'. BufferedOutStream_dtor UnixFileOutStream_write UnixFileOutStream_dtor
              \<lparr>out = os_healthy, out_top = 2, mode = FullBuf, out_buf = Some [104, 105, 0, 0]\<rparr> =
            Some (Inr os') \<and>
          received os' = received os_healthy @ [104, 105] \<and> closed os')"
proof -
  let ?st = "\<lparr>out = os_healthy, out_top = 2, mode = FullBuf, out_buf = Some [104, 105, 0, 0]\<rparr>"
  have p: "pending ?st = Inr [104, 105]"
    by (simp add: pending_def)
  have h: "\<not> closed os_healthy \<and> behaviour os_healthy (calls os_healthy) = Accept 4096 \<and>
      length [104, 105 :: byte] \<le> 4096 \<and> length [104, 105 :: byte] < 2 ^ 64"
    by (simp add: os_healthy_def)
  have a: "pending ?st = Inr [104, 105] \<and> \<not> closed (out ?st) \<and>
      behaviour (out ?st) (calls (out ?st)) = Accept 4096 \<and>
      length [104, 105 :: byte] \<le> 4096 \<and> length [104, 105 :: byte] < 2 ^ 64"
    using p h by simp
  note t = destructor_flushes_pending
    [of ?st "[104, 105]" UnixFileOutStream_write UnixFileOutStream_dtor ?st "[104, 105]" 4096]
  have c1: "BufferedOutStream_dtor UnixFileOutStream_write UnixFileOutStream_dtor ?st =
     and_then (UnixFileOutStream_write os_healthy [104, 105])
       (\<lambda>out'. Some (Inr (UnixFileOutStream_dtor out')))"
    using t [THEN conjunct1, rule_format, OF p] by simp
  have c2: "\<exists>os'. BufferedOutStream_dtor UnixFileOutStream_write UnixFileOutStream_dtor ?st = Some (Inr os') \<and>
          received os' = received os_healthy @ [104, 105] \<and> closed os'"
    using t [THEN conjunct2, rule_format, OF a] by simp
  show ?thesis
    apply (intro conjI)
          apply (rule p)
         apply (rule h [THEN conjunct1])
        apply (rule h [THEN conjunct2, THEN conjunct1])
       apply (rule h [THEN conjunct2, THEN conjunct2, THEN conjunct1])
      apply (rule h [THEN conjunct2, THEN conjunct2, THEN conjunct2])
     apply (rule c1)
    apply (rule c2)
    done
qed

section \<open>Facts about the input side\<close>

lemma read_loop_copy:
  assumes "in_top st \<le> in_max st" and "in_max st \<le> length (in_buf st)"
    and "acc \<noteq> [] \<or> in_top st < in_max st \<or> k = 0"
  shows "BufferedInStream_read_loop rd st acc k =
           Inr (length acc + min k (in_max st - in_top st),
                acc @ take (min k (in_max st - in_top st)) (drop (in_top st) (in_buf st)),
                st\<lparr>in_top := in_top st + min k (in_max st - in_top st)\<rparr>)"
  using assms
proof (induction k arbitrary: st acc)
  case 0
  then show ?case by simp
next
  case (Suc k)
  show ?case
  proof (cases "in_top st = in_max st")
    case True
    with Suc.prems have "acc \<noteq> []" by simp
    with True show ?thesis by simp
  next
    case False
    with Suc.prems have lt: "in_top st < in_max st" "in_top st < length (in_buf st)" by simp_all
    let ?b = "in_buf st ! in_top st"
    let ?st2 = "st\<lparr>in_top := in_top st + 1\<rparr>"
    have f: "fetch st = Inr (?b, ?st2)" using lt by (simp add: fetch_def)
    have ih: "BufferedInStream_read_loop rd ?st2 (acc @ [?b]) k =
           Inr (length (acc @ [?b]) + min k (in_max ?st2 - in_top ?st2),
                (acc @ [?b]) @ take (min k (in_max ?st2 - in_top ?st2)) (drop (in_top ?st2) (in_buf ?st2)),
                ?st2\<lparr>in_top := in_top ?st2 + min k (in_max ?st2 - in_top ?st2)\<rparr>)"
      using Suc.prems lt by (intro Suc.IH) simp_all
    have m: "min (Suc k) (in_max st - in_top st) = Suc (min k (in_max st - Suc (in_top st)))"
      using lt by (auto simp: min_def)
    have t: "take (Suc j) (drop (in_top st) (in_buf st)) = ?b # take j (drop (Suc (in_top st)) (in_buf st))" for j
      using lt by (simp add: Cons_nth_drop_Suc [symmetric])
    show ?thesis
      using False f ih by (simp add: m t)
  qed
qed

lemma refill_Inr:
  assumes "rd (inp st) BUFSIZ = Inr (m, d, in')" and "length d \<le> length (in_buf st)"
  shows "refill rd st = Inr (m \<noteq> 0, st\<lparr>inp := in', in_buf := d @ drop (length d) (in_buf st), in_top := 0, in_max := m\<rparr>)"
  using assms by (simp add: refill_def poke_def)

lemma honoursD:
  assumes "honours I rd" and "I st" and "k < 2 ^ 64"
  obtains m d st' where "rd st k = Inr (m, d, st')" and "m = length d" and "m \<le> k" and "I st'"
  using assms unfolding honours_def by blast

lemma readn_loop_total:
  assumes "honours I rd" and "I st" and "n \<le> length dst" and "length dst < 2 ^ 64"
  shows "\<exists>n' dst' st'. InStream_readn_loop rd st dst n = Some (Inr (n', dst', st')) \<and>
           n \<le> n' \<and> n' \<le> length dst \<and> length dst' = length dst \<and> I st' \<and>
           (n' < length dst \<longrightarrow> (\<exists>st0 k d0. 0 < k \<and> rd st0 k = Inr (0, d0, st')))"
  using assms(2-)
proof (induction "length dst - n" arbitrary: st dst n rule: less_induct)
  case less
  show ?case
  proof (cases "n = length dst")
    case True
    then show ?thesis
      using less.prems by (subst InStream_readn_loop.simps) simp
  next
    case False
    with less.prems have lt: "n < length dst" by simp
    then have k: "length dst - n < 2 ^ 64" using less.prems by simp
    from honoursD [OF assms(1) less.prems(1) k] obtain m d st1 where
        r: "rd st (length dst - n) = Inr (m, d, st1)" and m: "m = length d" "m \<le> length dst - n"
      and i1: "I st1"
      by blast
    let ?dst1 = "take n dst @ d @ drop (n + length d) dst"
    have p: "poke dst n d = Inr ?dst1" using m lt by (simp add: poke_def)
    have l1: "length ?dst1 = length dst" using m lt by simp
    show ?thesis
    proof (cases "m = 0")
      case True
      have "InStream_readn_loop rd st dst n = Some (Inr (n, ?dst1, st1))"
        using lt r p True by (subst InStream_readn_loop.simps) simp
      moreover have "\<exists>st0 k d0. 0 < k \<and> rd st0 k = Inr (0, d0, st1)"
        using r True lt by (intro exI [of _ st] exI [of _ "length dst - n"] exI [of _ d]) simp
      ultimately show ?thesis using lt i1 l1 by simp
    next
      case False
      have nm: "(n + m) mod 2 ^ 64 = n + m" using m lt less.prems by simp
      have step: "InStream_readn_loop rd st dst n = InStream_readn_loop rd st1 ?dst1 (n + m)"
        using lt r p False nm by (subst InStream_readn_loop.simps) simp
      have "\<exists>n' dst' st'. InStream_readn_loop rd st1 ?dst1 (n + m) = Some (Inr (n', dst', st')) \<and>
           n + m \<le> n' \<and> n' \<le> length ?dst1 \<and> length dst' = length ?dst1 \<and> I st' \<and>
           (n' < length ?dst1 \<longrightarrow> (\<exists>st0 k d0. 0 < k \<and> rd st0 k = Inr (0, d0, st')))"
      proof (intro less.hyps)
        have "0 < m" using False by simp
        then show "length ?dst1 - (n + m) < length dst - n" using m lt unfolding l1 by arith
      qed (use m lt less.prems i1 l1 in simp_all)
      then obtain n' dst' st' where
          e: "InStream_readn_loop rd st1 ?dst1 (n + m) = Some (Inr (n', dst', st'))"
        and b: "n + m \<le> n'" "n' \<le> length ?dst1" "length dst' = length ?dst1" "I st'"
        and z: "n' < length ?dst1 \<longrightarrow> (\<exists>st0 k d0. 0 < k \<and> rd st0 k = Inr (0, d0, st'))"
        by blast
      have "n \<le> n'" using b(1) by simp
      with e b z show ?thesis unfolding step l1 by blast
    qed
  qed
qed

lemma readn_total:
  assumes "honours I rd" and "I st" and "length dst < 2 ^ 64"
  shows "\<exists>n dst' st'. InStream_readn rd st dst = Some (Inr (n, dst', st')) \<and>
           n \<le> length dst \<and> length dst' = length dst \<and> I st' \<and>
           (n < length dst \<longrightarrow> (\<exists>st0 k d0. 0 < k \<and> rd st0 k = Inr (0, d0, st')))"
proof (cases "length dst = 0")
  case True
  from honoursD [OF assms(1,2), of 0] obtain m d st1 where
      r: "rd st 0 = Inr (m, d, st1)" and m: "m = length d" "m \<le> 0" and i1: "I st1"
    by auto
  then show ?thesis using True by (simp add: InStream_readn_def poke_def)
next
  case False
  from honoursD [OF assms(1,2,3)] obtain m d st1 where
      r: "rd st (length dst) = Inr (m, d, st1)" and m: "m = length d" "m \<le> length dst" and i1: "I st1"
    by blast
  let ?dst1 = "take 0 dst @ d @ drop (0 + length d) dst"
  have p: "poke dst 0 d = Inr ?dst1" using m by (simp add: poke_def)
  have l1: "length ?dst1 = length dst" using m by simp
  show ?thesis
  proof (cases "m = 0")
    case True
    have "InStream_readn rd st dst = Some (Inr (0, ?dst1, st1))"
      using r p True by (simp add: InStream_readn_def)
    moreover have "\<exists>st0 k d0. 0 < k \<and> rd st0 k = Inr (0, d0, st1)"
      using r True False by (intro exI [of _ st] exI [of _ "length dst"] exI [of _ d]) simp
    ultimately show ?thesis using False i1 l1 by simp
  next
    case nz: False
    have step: "InStream_readn rd st dst = InStream_readn_loop rd st1 ?dst1 m"
      using r p nz by (simp add: InStream_readn_def)
    have "\<exists>n' dst' st'. InStream_readn_loop rd st1 ?dst1 m = Some (Inr (n', dst', st')) \<and>
           m \<le> n' \<and> n' \<le> length ?dst1 \<and> length dst' = length ?dst1 \<and> I st' \<and>
           (n' < length ?dst1 \<longrightarrow> (\<exists>st0 k d0. 0 < k \<and> rd st0 k = Inr (0, d0, st')))"
      using m i1 l1 assms(3) by (intro readn_loop_total [OF assms(1)]) simp_all
    then obtain n' dst' st' where
        e: "InStream_readn_loop rd st1 ?dst1 m = Some (Inr (n', dst', st'))"
      and b: "n' \<le> length ?dst1" "length dst' = length ?dst1" "I st'"
      and z: "n' < length ?dst1 \<longrightarrow> (\<exists>st0 k d0. 0 < k \<and> rd st0 k = Inr (0, d0, st'))"
      by blast
    from e b z show ?thesis unfolding step l1 by blast
  qed
qed

lemma BUFSIZ_size_t: "BUFSIZ < 2 ^ 64"
  by (simp add: BUFSIZ_def)

lemma buffered_readn_loop_total:
  assumes "honours I rd" and "I (inp st)" and "in_top st \<le> in_max st"
    and "in_max st \<le> length (in_buf st)" and "BUFSIZ \<le> length (in_buf st)"
  shows "\<exists>n d st'. BufferedInStream_readn_loop rd st acc k = Inr (n, d, st') \<and> n = length d \<and>
           length acc \<le> n \<and> n \<le> length acc + k \<and> take (length acc) d = acc \<and> I (inp st') \<and>
           in_top st' \<le> in_max st' \<and> in_max st' \<le> length (in_buf st') \<and> BUFSIZ \<le> length (in_buf st') \<and>
           (n < length acc + k \<longrightarrow> (\<exists>i0 d0. rd i0 BUFSIZ = Inr (0, d0, inp st')))"
  using assms(2-)
proof (induction k arbitrary: st acc)
  case 0
  then show ?case by simp
next
  case (Suc k)
  have fetch_step: "\<exists>n d st'. (case fetch st1 of Inl e \<Rightarrow> Inl e
             | Inr (b, st2) \<Rightarrow> BufferedInStream_readn_loop rd st2 (acc @ [b]) k) = Inr (n, d, st') \<and> n = length d \<and>
           length acc \<le> n \<and> n \<le> length acc + Suc k \<and> take (length acc) d = acc \<and> I (inp st') \<and>
           in_top st' \<le> in_max st' \<and> in_max st' \<le> length (in_buf st') \<and> BUFSIZ \<le> length (in_buf st') \<and>
           (n < length acc + Suc k \<longrightarrow> (\<exists>i0 d0. rd i0 BUFSIZ = Inr (0, d0, inp st')))"
    if w: "I (inp st1)" "in_top st1 < in_max st1" "in_max st1 \<le> length (in_buf st1)"
      "BUFSIZ \<le> length (in_buf st1)" for st1
  proof -
    let ?b = "in_buf st1 ! in_top st1"
    let ?st2 = "st1\<lparr>in_top := in_top st1 + 1\<rparr>"
    have f: "fetch st1 = Inr (?b, ?st2)" using w by (simp add: fetch_def)
    have "\<exists>n d st'. BufferedInStream_readn_loop rd ?st2 (acc @ [?b]) k = Inr (n, d, st') \<and> n = length d \<and>
           length (acc @ [?b]) \<le> n \<and> n \<le> length (acc @ [?b]) + k \<and>
           take (length (acc @ [?b])) d = acc @ [?b] \<and> I (inp st') \<and>
           in_top st' \<le> in_max st' \<and> in_max st' \<le> length (in_buf st') \<and> BUFSIZ \<le> length (in_buf st') \<and>
           (n < length (acc @ [?b]) + k \<longrightarrow> (\<exists>i0 d0. rd i0 BUFSIZ = Inr (0, d0, inp st')))"
      using w by (intro Suc.IH) simp_all
    then obtain n d st' where
        e: "BufferedInStream_readn_loop rd ?st2 (acc @ [?b]) k = Inr (n, d, st')"
      and b: "n = length d" "length (acc @ [?b]) \<le> n" "n \<le> length (acc @ [?b]) + k"
        "take (length (acc @ [?b])) d = acc @ [?b]" "I (inp st')"
        "in_top st' \<le> in_max st'" "in_max st' \<le> length (in_buf st')" "BUFSIZ \<le> length (in_buf st')"
      and z: "n < length (acc @ [?b]) + k \<longrightarrow> (\<exists>i0 d0. rd i0 BUFSIZ = Inr (0, d0, inp st'))"
      by blast
    have t: "take (length acc) d = acc"
      using b(4) by (metis append_eq_conv_conj length_append_singleton take_Suc_conv_app_nth take_all_iff
          append.assoc append_take_drop_id)
    have "length acc \<le> n" "n \<le> length acc + Suc k" using b by simp_all
    moreover have "n < length acc + Suc k \<longrightarrow> (\<exists>i0 d0. rd i0 BUFSIZ = Inr (0, d0, inp st'))"
      using z by simp
    ultimately show ?thesis
      using e b t f by (intro exI [of _ n] exI [of _ d] exI [of _ st']) simp
  qed
  show ?case
  proof (cases "in_top st = in_max st")
    case True
    from honoursD [OF assms(1) Suc.prems(1) BUFSIZ_size_t] obtain m d0 in1 where
        r: "rd (inp st) BUFSIZ = Inr (m, d0, in1)" and m: "m = length d0" "m \<le> BUFSIZ" and i1: "I in1"
      by blast
    let ?st1 = "st\<lparr>inp := in1, in_buf := d0 @ drop (length d0) (in_buf st), in_top := 0, in_max := m\<rparr>"
    have rf: "refill rd st = Inr (m \<noteq> 0, ?st1)"
      using r m Suc.prems by (intro refill_Inr) simp_all
    show ?thesis
    proof (cases "m = 0")
      case z: True
      have "BufferedInStream_readn_loop rd st acc (Suc k) = Inr (length acc, acc, ?st1)"
        using True rf z by simp
      moreover have "\<exists>i0 d0'. rd i0 BUFSIZ = Inr (0, d0', inp ?st1)"
        using r z by (intro exI [of _ "inp st"] exI [of _ d0]) simp
      ultimately show ?thesis using i1 m Suc.prems z by simp
    next
      case nz: False
      have s: "BufferedInStream_readn_loop rd st acc (Suc k) =
          (case fetch ?st1 of Inl e \<Rightarrow> Inl e
             | Inr (b, st2) \<Rightarrow> BufferedInStream_readn_loop rd st2 (acc @ [b]) k)"
        using True rf nz by simp
      show ?thesis
        unfolding s using i1 m nz Suc.prems by (intro fetch_step) simp_all
    qed
  next
    case False
    have s: "BufferedInStream_readn_loop rd st acc (Suc k) =
          (case fetch st of Inl e \<Rightarrow> Inl e
             | Inr (b, st2) \<Rightarrow> BufferedInStream_readn_loop rd st2 (acc @ [b]) k)"
      using False by simp
    show ?thesis
      unfolding s using False Suc.prems by (intro fetch_step) simp_all
  qed
qed

lemma unix_read_honours: "honours no_failures UnixFileInStream_read"
  unfolding honours_def
proof (intro allI impI)
  fix os :: os_in and k :: nat
  assume a: "no_failures os \<and> k < 2 ^ 64"
  show "\<exists>m d st'. UnixFileInStream_read os k = Inr (m, d, st') \<and> m = length d \<and> m \<le> k \<and> no_failures st'"
  proof (cases "k = 0")
    case True
    then show ?thesis using a by (simp add: UnixFileInStream_read_def)
  next
    case False
    show ?thesis
    proof (cases "source os")
      case Nil
      then show ?thesis using a False
        by (simp add: UnixFileInStream_read_def os_read_def size_t_of_def no_failures_def)
    next
      case (Cons ev evs)
      with a obtain d where ev: "ev = Data d" and rest: "list_all is_data evs"
        by (cases ev) (auto simp: no_failures_def)
      have "min k (length d) < 2 ^ 64" using a by (auto simp: min_def)
      then have sz: "size_t_of (int (min k (length d))) = min k (length d)"
        by (rule size_t_of_nat)
      show ?thesis
        using Cons ev rest False sz
        by (simp add: UnixFileInStream_read_def os_read_def no_failures_def min.commute)
    qed
  qed
qed

lemma readuntil_loop_sound:
  assumes "InStream_readuntil_loop gc st eol ret = Some y"
  shows "\<forall>r st'. y = Inr (r, st') \<longrightarrow>
           (\<exists>cs st1. getchars gc st (length cs) = Inr (cs, st1) \<and> r = ret @ map word_of_int cs \<and>
              EOF \<notin> set cs \<and>
              (\<forall>k. 0 < k \<and> k < length cs \<longrightarrow> \<not> ends_with (ret @ map word_of_int (take k cs)) eol) \<and>
              (if cs \<noteq> [] \<and> ends_with r eol then st' = st1 else gc st1 = Inr (EOF, st')))"
proof (rule InStream_readuntil_loop.raw_induct
    [where P = "\<lambda>gc st eol ret y. \<forall>r st'. y = Inr (r, st') \<longrightarrow>
           (\<exists>cs st1. getchars gc st (length cs) = Inr (cs, st1) \<and> r = ret @ map word_of_int cs \<and>
              EOF \<notin> set cs \<and>
              (\<forall>k. 0 < k \<and> k < length cs \<longrightarrow> \<not> ends_with (ret @ map word_of_int (take k cs)) eol) \<and>
              (if cs \<noteq> [] \<and> ends_with r eol then st' = st1 else gc st1 = Inr (EOF, st')))",
     OF _ assms])
  fix loop :: "('a \<Rightarrow> error + int \<times> 'a) \<Rightarrow> 'a \<Rightarrow> byte list \<Rightarrow> byte list \<Rightarrow> (error + byte list \<times> 'a) option"
  fix gc st eol ret y
  assume ih: "\<And>gc st eol ret y. loop gc st eol ret = Some y \<Longrightarrow>
          \<forall>r st'. y = Inr (r, st') \<longrightarrow>
           (\<exists>cs st1. getchars gc st (length cs) = Inr (cs, st1) \<and> r = ret @ map word_of_int cs \<and>
              EOF \<notin> set cs \<and>
              (\<forall>k. 0 < k \<and> k < length cs \<longrightarrow> \<not> ends_with (ret @ map word_of_int (take k cs)) eol) \<and>
              (if cs \<noteq> [] \<and> ends_with r eol then st' = st1 else gc st1 = Inr (EOF, st')))"
  assume eq: "(case gc st of
        Inl e \<Rightarrow> Some (Inl e)
      | Inr (c, st') \<Rightarrow>
          (if c = EOF then Some (Inr (ret, st'))
           else if ends_with (ret @ [word_of_int c]) eol then Some (Inr (ret @ [word_of_int c], st'))
           else loop gc st' eol (ret @ [word_of_int c]))) = Some y"
  show "\<forall>r st'. y = Inr (r, st') \<longrightarrow>
           (\<exists>cs st1. getchars gc st (length cs) = Inr (cs, st1) \<and> r = ret @ map word_of_int cs \<and>
              EOF \<notin> set cs \<and>
              (\<forall>k. 0 < k \<and> k < length cs \<longrightarrow> \<not> ends_with (ret @ map word_of_int (take k cs)) eol) \<and>
              (if cs \<noteq> [] \<and> ends_with r eol then st' = st1 else gc st1 = Inr (EOF, st')))"
  proof (intro allI impI)
    fix r st'
    assume y: "y = Inr (r, st')"
    show "\<exists>cs st1. getchars gc st (length cs) = Inr (cs, st1) \<and> r = ret @ map word_of_int cs \<and>
              EOF \<notin> set cs \<and>
              (\<forall>k. 0 < k \<and> k < length cs \<longrightarrow> \<not> ends_with (ret @ map word_of_int (take k cs)) eol) \<and>
              (if cs \<noteq> [] \<and> ends_with r eol then st' = st1 else gc st1 = Inr (EOF, st'))"
    proof (cases "gc st")
      case (Inl e)
      with eq y show ?thesis by simp
    next
      case (Inr p)
      obtain c st2 where p: "p = (c, st2)" by (cases p)
      note g = Inr [unfolded p]
      show ?thesis
      proof (cases "c = EOF")
        case True
        with eq y g have "r = ret" "st' = st2" by simp_all
        then show ?thesis using g True
          by (intro exI [of _ "[]"] exI [of _ st]) simp
      next
        case nE: False
        show ?thesis
        proof (cases "ends_with (ret @ [word_of_int c]) eol")
          case True
          with eq y g nE have "r = ret @ [word_of_int c]" "st' = st2" by simp_all
          then show ?thesis using g True nE
            by (intro exI [of _ "[c]"] exI [of _ st2]) simp
        next
          case False
          with eq g nE have "loop gc st2 eol (ret @ [word_of_int c]) = Some y" by simp
          from ih [OF this] y obtain cs st1 where
              a: "getchars gc st2 (length cs) = Inr (cs, st1)"
            and b: "r = (ret @ [word_of_int c]) @ map word_of_int cs"
            and c: "EOF \<notin> set cs"
            and d: "\<forall>k. 0 < k \<and> k < length cs \<longrightarrow>
                     \<not> ends_with ((ret @ [word_of_int c]) @ map word_of_int (take k cs)) eol"
            and e: "if cs \<noteq> [] \<and> ends_with r eol then st' = st1 else gc st1 = Inr (EOF, st')"
            by blast
          have d': "\<not> ends_with (ret @ map word_of_int (take k (c # cs))) eol"
            if "0 < k \<and> k < length (c # cs)" for k
          proof (cases k)
            case 0
            with that show ?thesis by simp
          next
            case (Suc j)
            show ?thesis
            proof (cases "j = 0")
              case True
              with Suc False show ?thesis by simp
            next
              case jn: False
              with that Suc d have "\<not> ends_with ((ret @ [word_of_int c]) @ map word_of_int (take j cs)) eol"
                by simp
              then show ?thesis using Suc by simp
            qed
          qed
          have e': "if c # cs \<noteq> [] \<and> ends_with r eol then st' = st1 else gc st1 = Inr (EOF, st')"
          proof (cases "cs = []")
            case True
            with b False have "\<not> ends_with r eol" by simp
            with e True show ?thesis by simp
          next
            case False
            with e show ?thesis by simp
          qed
          show ?thesis
            using a b c nE d' e' g
            by (intro exI [of _ "c # cs"] exI [of _ st1]) (simp del: take_Suc_Cons)
        qed
      qed
    qed
  qed
qed

lemma readuntil_char_loop_sound:
  assumes "InStream_readuntil_char_loop gc st eol ret = Some y"
  shows "\<forall>r st'. y = Inr (r, st') \<longrightarrow>
           (\<exists>cs st1. getchars gc st (length cs) = Inr (cs, st1) \<and> r = ret @ map word_of_int cs \<and>
              EOF \<notin> set cs \<and> (\<forall>k. Suc k < length cs \<longrightarrow> cs ! k \<noteq> sint eol) \<and>
              (if cs \<noteq> [] \<and> last cs = sint eol then st' = st1 else gc st1 = Inr (EOF, st')))"
proof (rule InStream_readuntil_char_loop.raw_induct
    [where P = "\<lambda>gc st eol ret y. \<forall>r st'. y = Inr (r, st') \<longrightarrow>
           (\<exists>cs st1. getchars gc st (length cs) = Inr (cs, st1) \<and> r = ret @ map word_of_int cs \<and>
              EOF \<notin> set cs \<and> (\<forall>k. Suc k < length cs \<longrightarrow> cs ! k \<noteq> sint eol) \<and>
              (if cs \<noteq> [] \<and> last cs = sint eol then st' = st1 else gc st1 = Inr (EOF, st')))",
     OF _ assms])
  fix loop :: "('a \<Rightarrow> error + int \<times> 'a) \<Rightarrow> 'a \<Rightarrow> byte \<Rightarrow> byte list \<Rightarrow> (error + byte list \<times> 'a) option"
  fix gc st eol ret y
  assume ih: "\<And>gc st eol ret y. loop gc st eol ret = Some y \<Longrightarrow>
          \<forall>r st'. y = Inr (r, st') \<longrightarrow>
           (\<exists>cs st1. getchars gc st (length cs) = Inr (cs, st1) \<and> r = ret @ map word_of_int cs \<and>
              EOF \<notin> set cs \<and> (\<forall>k. Suc k < length cs \<longrightarrow> cs ! k \<noteq> sint eol) \<and>
              (if cs \<noteq> [] \<and> last cs = sint eol then st' = st1 else gc st1 = Inr (EOF, st')))"
  assume eq: "(case gc st of
        Inl e \<Rightarrow> Some (Inl e)
      | Inr (c, st') \<Rightarrow>
          (if c = EOF then Some (Inr (ret, st'))
           else if c = sint eol then Some (Inr (ret @ [word_of_int c], st'))
           else loop gc st' eol (ret @ [word_of_int c]))) = Some y"
  show "\<forall>r st'. y = Inr (r, st') \<longrightarrow>
           (\<exists>cs st1. getchars gc st (length cs) = Inr (cs, st1) \<and> r = ret @ map word_of_int cs \<and>
              EOF \<notin> set cs \<and> (\<forall>k. Suc k < length cs \<longrightarrow> cs ! k \<noteq> sint eol) \<and>
              (if cs \<noteq> [] \<and> last cs = sint eol then st' = st1 else gc st1 = Inr (EOF, st')))"
  proof (intro allI impI)
    fix r st'
    assume y: "y = Inr (r, st')"
    show "\<exists>cs st1. getchars gc st (length cs) = Inr (cs, st1) \<and> r = ret @ map word_of_int cs \<and>
              EOF \<notin> set cs \<and> (\<forall>k. Suc k < length cs \<longrightarrow> cs ! k \<noteq> sint eol) \<and>
              (if cs \<noteq> [] \<and> last cs = sint eol then st' = st1 else gc st1 = Inr (EOF, st'))"
    proof (cases "gc st")
      case (Inl e)
      with eq y show ?thesis by simp
    next
      case (Inr p)
      obtain c st2 where p: "p = (c, st2)" by (cases p)
      note g = Inr [unfolded p]
      show ?thesis
      proof (cases "c = EOF")
        case True
        with eq y g have "r = ret" "st' = st2" by simp_all
        then show ?thesis using g True
          by (intro exI [of _ "[]"] exI [of _ st]) simp
      next
        case nE: False
        show ?thesis
        proof (cases "c = sint eol")
          case True
          with eq y g nE have "r = ret @ [word_of_int c]" "st' = st2" by simp_all
          then show ?thesis using g True nE
            by (intro exI [of _ "[c]"] exI [of _ st2]) simp
        next
          case False
          with eq g nE have "loop gc st2 eol (ret @ [word_of_int c]) = Some y" by simp
          from ih [OF this] y obtain cs st1 where
              a: "getchars gc st2 (length cs) = Inr (cs, st1)"
            and b: "r = (ret @ [word_of_int c]) @ map word_of_int cs"
            and c: "EOF \<notin> set cs"
            and d: "\<forall>k. Suc k < length cs \<longrightarrow> cs ! k \<noteq> sint eol"
            and e: "if cs \<noteq> [] \<and> last cs = sint eol then st' = st1 else gc st1 = Inr (EOF, st')"
            by blast
          have d': "(c # cs) ! k \<noteq> sint eol" if "Suc k < length (c # cs)" for k
            using that d False by (cases k) simp_all
          have e': "if c # cs \<noteq> [] \<and> last (c # cs) = sint eol then st' = st1 else gc st1 = Inr (EOF, st')"
            using e False by (cases "cs = []") simp_all
          show ?thesis
            using a b c nE d' e' g
            by (intro exI [of _ "c # cs"] exI [of _ st1]) (simp del: last.simps)
        qed
      qed
    qed
  qed
qed

lemmas eval_unix_getchar = InStream_getchar_def UnixFileInStream_read_def os_read_def size_t_of_def EOF_def

lemma ends_with_strip: "ends_with ret eol \<Longrightarrow> take (length ret - length eol) ret @ eol = ret"
  by (metis append_take_drop_id ends_with_def)

lemma readuntil_sound:
  assumes "InStream_readuntil gc st eol = Some (Inr (ret, st'))"
  shows "\<exists>cs st1. getchars gc st (length ret) = Inr (cs, st1) \<and> ret = map word_of_int cs \<and>
            EOF \<notin> set cs \<and>
            (\<forall>k. 0 < k \<and> k < length ret \<longrightarrow> \<not> ends_with (take k ret) eol) \<and>
            (if ret \<noteq> [] \<and> ends_with ret eol then st' = st1 else gc st1 = Inr (EOF, st'))"
proof -
  from readuntil_loop_sound [OF assms [unfolded InStream_readuntil_def]]
  obtain cs st1 where a: "getchars gc st (length cs) = Inr (cs, st1)"
    and b: "ret = [] @ map word_of_int cs" and c: "EOF \<notin> set cs"
    and d: "\<forall>k. 0 < k \<and> k < length cs \<longrightarrow> \<not> ends_with ([] @ map word_of_int (take k cs)) eol"
    and e: "if cs \<noteq> [] \<and> ends_with ret eol then st' = st1 else gc st1 = Inr (EOF, st')"
    by blast
  have l: "length ret = length cs" using b by simp
  have d': "\<forall>k. 0 < k \<and> k < length ret \<longrightarrow> \<not> ends_with (take k ret) eol"
    using d b by (simp add: take_map)
  have e': "if ret \<noteq> [] \<and> ends_with ret eol then st' = st1 else gc st1 = Inr (EOF, st')"
    using e b by auto
  show ?thesis
    using a b c d' e' unfolding l by (intro exI [of _ cs] exI [of _ st1]) simp
qed

lemma readuntil_char_sound:
  assumes "InStream_readuntil_char gc st eol = Some (Inr (ret, st'))"
  shows "\<exists>cs st1. getchars gc st (length ret) = Inr (cs, st1) \<and> ret = map word_of_int cs \<and>
            EOF \<notin> set cs \<and> (\<forall>k. Suc k < length cs \<longrightarrow> cs ! k \<noteq> sint eol) \<and>
            (if cs \<noteq> [] \<and> last cs = sint eol then st' = st1 else gc st1 = Inr (EOF, st'))"
proof -
  from readuntil_char_loop_sound [OF assms [unfolded InStream_readuntil_char_def]]
  obtain cs st1 where a: "getchars gc st (length cs) = Inr (cs, st1)"
    and b: "ret = [] @ map word_of_int cs" and c: "EOF \<notin> set cs"
    and d: "\<forall>k. Suc k < length cs \<longrightarrow> cs ! k \<noteq> sint eol"
    and e: "if cs \<noteq> [] \<and> last cs = sint eol then st' = st1 else gc st1 = Inr (EOF, st')"
    by blast
  have l: "length ret = length cs" using b by simp
  show ?thesis
    using a b c d e unfolding l by (intro exI [of _ cs] exI [of _ st1]) simp
qed

lemma getline_strips:
  assumes "InStream_readuntil gc st eol = Some (Inr (ret, st'))"
  shows "\<exists>line. InStream_getline gc st eol = Some (Inr (line, st')) \<and>
           (if ends_with ret eol then ret = line @ eol else line = ret)"
  using assms by (simp add: InStream_getline_def ends_with_strip)

lemma getline_char_strips:
  assumes "InStream_readuntil_char gc st eol = Some (Inr (ret, st'))"
  shows "\<exists>line. InStream_getline_char gc st eol = Some (Inr (line, st')) \<and>
           (if ret \<noteq> [] \<and> last ret = eol then ret = line @ [eol] else line = ret)"
  using assms by (auto simp: InStream_getline_char_def)

lemma deliversD:
  assumes "delivers I C rd" and "I st" and "k < 2 ^ 64"
  obtains m st' where "rd st k = Inr (m, take m (C st), st')" and "m \<le> k" and "m \<le> length (C st)"
    and "I st'" and "0 < k \<and> C st \<noteq> [] \<longrightarrow> 0 < m" and "0 < m \<or> k = 0 \<longrightarrow> C st' = drop m (C st)"
proof -
  have "\<exists>m st'. rd st k = Inr (m, take m (C st), st') \<and> m \<le> k \<and> m \<le> length (C st) \<and> I st' \<and>
           (0 < k \<and> C st \<noteq> [] \<longrightarrow> 0 < m) \<and>
           (0 < m \<or> k = 0 \<longrightarrow> C st' = drop m (C st))"
    by (rule assms(1) [unfolded delivers_def, rule_format, OF conjI [OF assms(2) assms(3)]])
  then show thesis
    by (elim exE conjE) (rule that, assumption+)
qed

lemma unix_read_delivers: "delivers no_failures (\<lambda>os. avail (source os)) UnixFileInStream_read"
  unfolding delivers_def
proof (intro allI impI)
  fix os :: os_in and k :: nat
  assume a: "no_failures os \<and> k < 2 ^ 64"
  let ?C = "avail (source os)"
  show "\<exists>m st'. UnixFileInStream_read os k = Inr (m, take m ?C, st') \<and> m \<le> k \<and> m \<le> length ?C \<and>
          no_failures st' \<and> (0 < k \<and> ?C \<noteq> [] \<longrightarrow> 0 < m) \<and>
          (0 < m \<or> k = 0 \<longrightarrow> avail (source st') = drop m ?C)"
  proof (cases "k = 0")
    case True
    then show ?thesis using a
      by (intro exI [of _ 0] exI [of _ os]) (simp add: UnixFileInStream_read_def)
  next
    case False
    show ?thesis
    proof (cases "source os")
      case Nil
      then show ?thesis using a False
        by (intro exI [of _ 0] exI [of _ "os\<lparr>reads := Suc (reads os)\<rparr>"])
           (simp add: UnixFileInStream_read_def os_read_def size_t_of_def no_failures_def)
    next
      case (Cons ev evs)
      with a obtain d where ev: "ev = Data d" and rest: "list_all is_data evs"
        by (cases ev) (auto simp: no_failures_def)
      let ?m = "min k (length d)"
      let ?os = "os\<lparr>source := (if drop k d = [] then evs else Data (drop k d) # evs),
                     reads := Suc (reads os)\<rparr>"
      have "?m < 2 ^ 64" using a by (auto simp: min_def)
      then have sz: "size_t_of (int ?m) = ?m" by (rule size_t_of_nat)
      have r: "UnixFileInStream_read os k = Inr (?m, take k d, ?os)"
        using Cons ev False sz by (simp add: UnixFileInStream_read_def os_read_def)
      show ?thesis
      proof (cases "d = []")
        case True
        then show ?thesis using r Cons ev rest False
          by (intro exI [of _ 0] exI [of _ ?os]) (simp add: no_failures_def)
      next
        case dn: False
        have c: "avail (source os) = d @ avail evs" using Cons ev dn by simp
        show ?thesis
        proof (cases "length d \<le> k")
          case True
          then have m: "?m = length d" by simp
          have src: "source ?os = evs" using True by simp
          have nf: "no_failures ?os" using rest src by (simp add: no_failures_def)
          have r': "UnixFileInStream_read os k = Inr (length d, take (length d) (avail (source os)), ?os)"
            using r True c by (simp add: m)
          have dr: "avail (source ?os) = drop (length d) (avail (source os))"
            using src c by simp
          have "length d \<le> length (avail (source os))" using c by simp
          moreover have "0 < length d" using dn by simp
          ultimately show ?thesis
            using r' True nf dr by (intro exI [of _ "length d"] exI [of _ ?os]) simp
        next
          case gt: False
          then have m: "?m = k" by simp
          have dk: "drop k d \<noteq> []" using gt by simp
          have src: "source ?os = Data (drop k d) # evs" using dk by simp
          have nf: "no_failures ?os" using rest src by (simp add: no_failures_def)
          have tk: "take k d = take k (avail (source os))" using gt c by simp
          have r': "UnixFileInStream_read os k = Inr (k, take k (avail (source os)), ?os)"
            using r m tk by simp
          have dr: "avail (source ?os) = drop k (avail (source os))"
            using src c dk gt by simp
          have "k \<le> length (avail (source os))" using c gt by simp
          then show ?thesis
            using r' nf dr False by (intro exI [of _ k] exI [of _ ?os]) simp
        qed
      qed
    qed
  qed
qed

lemma drop_poked:
  assumes "n + m \<le> j" and "n \<le> length dst" and "length d = m"
  shows "drop j (take n dst @ d @ drop (n + m) dst) = drop j dst"
proof -
  have a: "length (take n dst) = n" using assms(2) by simp
  have "drop j (take n dst @ d @ drop (n + m) dst) = drop (j - n) (d @ drop (n + m) dst)"
    using assms(1) a by simp
  also have "\<dots> = drop (j - n - m) (drop (n + m) dst)"
    using assms(1,3) by simp
  also have "\<dots> = drop (j - n - m + (n + m)) dst"
    by (rule drop_drop)
  also have "j - n - m + (n + m) = j" using assms(1) by arith
  finally show ?thesis .
qed

lemma take_poked:
  assumes "n \<le> length dst" and "length d = m"
  shows "take (n + m) (take n dst @ d @ drop (n + m) dst) = take n dst @ d"
  using assms by simp

lemma readn_loop_delivers:
  assumes "delivers I C rd" and "I st" and "n \<le> length dst" and "length dst < 2 ^ 64"
  shows "\<exists>st'. InStream_readn_loop rd st dst n =
             Some (Inr (n + min (length dst - n) (length (C st)),
                        take n dst @ take (length dst - n) (C st) @ drop (n + length (C st)) dst, st')) \<and>
           I st' \<and> (length dst - n \<le> length (C st) \<longrightarrow> C st' = drop (length dst - n) (C st))"
  using assms(2-)
proof (induction "length dst - n" arbitrary: st dst n rule: less_induct)
  case less
  show ?case
  proof (cases "n = length dst")
    case True
    have "InStream_readn_loop rd st dst n = Some (Inr (n, dst, st))"
      using True by (subst InStream_readn_loop.simps) simp
    then show ?thesis using True less.prems by simp
  next
    case False
    with less.prems have lt: "n < length dst" by simp
    then have k: "length dst - n < 2 ^ 64" "0 < length dst - n" using less.prems by simp_all
    from deliversD [OF assms(1) less.prems(1) k(1)] obtain m st1 where
        r: "rd st (length dst - n) = Inr (m, take m (C st), st1)"
      and m: "m \<le> length dst - n" "m \<le> length (C st)" and i1: "I st1"
      and pos: "0 < length dst - n \<and> C st \<noteq> [] \<longrightarrow> 0 < m"
      and c1: "0 < m \<or> length dst - n = 0 \<longrightarrow> C st1 = drop m (C st)"
      by blast
    let ?d = "take m (C st)"
    have ld: "length ?d = m" using m by simp
    let ?dst1 = "take n dst @ ?d @ drop (n + m) dst"
    have p: "poke dst n ?d = Inr ?dst1" using m lt by (simp add: poke_def ld)
    have l1: "length ?dst1 = length dst" using m lt by (simp add: ld)
    show ?thesis
    proof (cases "m = 0")
      case True
      with pos k have e: "C st = []" by simp
      have "InStream_readn_loop rd st dst n = Some (Inr (n, ?dst1, st1))"
        using lt r p True by (subst InStream_readn_loop.simps) simp
      then show ?thesis using True e i1 lt by simp
    next
      case nz: False
      then have cs1: "C st1 = drop m (C st)" using c1 by simp
      have nm: "(n + m) mod 2 ^ 64 = n + m" using m lt less.prems by simp
      have step: "InStream_readn_loop rd st dst n = InStream_readn_loop rd st1 ?dst1 (n + m)"
        using lt r p nz nm by (subst InStream_readn_loop.simps) simp
      have "\<exists>st'. InStream_readn_loop rd st1 ?dst1 (n + m) =
             Some (Inr (n + m + min (length ?dst1 - (n + m)) (length (C st1)),
                        take (n + m) ?dst1 @ take (length ?dst1 - (n + m)) (C st1) @
                          drop (n + m + length (C st1)) ?dst1, st')) \<and>
           I st' \<and> (length ?dst1 - (n + m) \<le> length (C st1) \<longrightarrow>
                      C st' = drop (length ?dst1 - (n + m)) (C st1))"
      proof (rule less.hyps)
        have "0 < m" using nz by simp
        then show "length ?dst1 - (n + m) < length dst - n" using m lt unfolding l1 by arith
      qed (use m lt less.prems i1 l1 in simp_all)
      then obtain st' where
          e: "InStream_readn_loop rd st1 ?dst1 (n + m) =
             Some (Inr (n + m + min (length dst - (n + m)) (length (C st1)),
                        take (n + m) ?dst1 @ take (length dst - (n + m)) (C st1) @
                          drop (n + m + length (C st1)) ?dst1, st'))"
        and i': "I st'"
        and c': "length dst - (n + m) \<le> length (C st1) \<longrightarrow> C st' = drop (length dst - (n + m)) (C st1)"
        unfolding l1 by blast
      have a1: "n + m + min (length dst - (n + m)) (length (C st1)) =
                n + min (length dst - n) (length (C st))"
      proof -
        have "length (C st1) = length (C st) - m" using cs1 by simp
        then show ?thesis using m lt unfolding min_def by auto
      qed
      have t1: "take (n + m) ?dst1 = take n dst @ ?d"
        using lt ld by (intro take_poked) simp_all
      have t2: "?d @ take (length dst - (n + m)) (C st1) = take (length dst - n) (C st)"
      proof -
        have "take (m + (length dst - (n + m))) (C st) = ?d @ take (length dst - (n + m)) (drop m (C st))"
          by (rule take_add)
        moreover have "m + (length dst - (n + m)) = length dst - n" using m by simp
        ultimately show ?thesis using cs1 by simp
      qed
      have t3: "drop (n + m + length (C st1)) ?dst1 = drop (n + length (C st)) dst"
      proof -
        have eq: "n + m + length (C st1) = n + length (C st)" using cs1 m by simp
        have "drop (n + length (C st)) ?dst1 = drop (n + length (C st)) dst"
          using m lt ld by (intro drop_poked) simp_all
        then show ?thesis unfolding eq .
      qed
      have res: "take (n + m) ?dst1 @ take (length dst - (n + m)) (C st1) @ drop (n + m + length (C st1)) ?dst1 =
                 take n dst @ take (length dst - n) (C st) @ drop (n + length (C st)) dst"
        unfolding t1 t3 using t2 by (metis append.assoc)
      have c'': "length dst - n \<le> length (C st) \<longrightarrow> C st' = drop (length dst - n) (C st)"
      proof
        assume h: "length dst - n \<le> length (C st)"
        then have "length dst - (n + m) \<le> length (C st1)" using cs1 by simp
        with c' have "C st' = drop (length dst - (n + m)) (drop m (C st))" using cs1 by simp
        also have "\<dots> = drop (length dst - n) (C st)"
        proof -
          have "length dst - (n + m) + m = length dst - n" using m by arith
          then show ?thesis by (simp only: drop_drop)
        qed
        finally show "C st' = drop (length dst - n) (C st)" .
      qed
      show ?thesis
        unfolding step e a1 res using i' c'' by simp
    qed
  qed
qed

lemma readn_delivers:
  assumes "delivers I C rd" and "I st" and "length dst < 2 ^ 64"
  shows "\<exists>st'. InStream_readn rd st dst =
             Some (Inr (min (length dst) (length (C st)),
                        take (length dst) (C st) @ drop (length (C st)) dst, st')) \<and>
           I st' \<and> (length dst \<le> length (C st) \<longrightarrow> C st' = drop (length dst) (C st))"
proof -
  from deliversD [OF assms] obtain m st1 where
      r: "rd st (length dst) = Inr (m, take m (C st), st1)"
    and m: "m \<le> length dst" "m \<le> length (C st)" and i1: "I st1"
    and pos: "0 < length dst \<and> C st \<noteq> [] \<longrightarrow> 0 < m"
    and c1: "0 < m \<or> length dst = 0 \<longrightarrow> C st1 = drop m (C st)"
    by blast
  let ?d = "take m (C st)"
  have ld: "length ?d = m" using m by simp
  let ?dst1 = "take 0 dst @ ?d @ drop (0 + m) dst"
  have p: "poke dst 0 ?d = Inr ?dst1" using m by (simp add: poke_def ld)
  have l1: "length ?dst1 = length dst" using m by (simp add: ld)
  show ?thesis
  proof (cases "m = 0")
    case True
    have e: "InStream_readn rd st dst = Some (Inr (0, dst, st1))"
      using r p True by (simp add: InStream_readn_def)
    have z: "length dst = 0 \<or> C st = []" using pos True by auto
    then have "min (length dst) (length (C st)) = 0"
      "take (length dst) (C st) @ drop (length (C st)) dst = dst" by auto
    moreover have "length dst \<le> length (C st) \<longrightarrow> C st1 = drop (length dst) (C st)"
      using z c1 True by auto
    ultimately show ?thesis using e i1 by simp
  next
    case nz: False
    then have cs1: "C st1 = drop m (C st)" using c1 by simp
    have step: "InStream_readn rd st dst = InStream_readn_loop rd st1 ?dst1 m"
      using r p nz by (simp add: InStream_readn_def)
    have "\<exists>st'. InStream_readn_loop rd st1 ?dst1 m =
             Some (Inr (m + min (length ?dst1 - m) (length (C st1)),
                        take m ?dst1 @ take (length ?dst1 - m) (C st1) @ drop (m + length (C st1)) ?dst1, st')) \<and>
           I st' \<and> (length ?dst1 - m \<le> length (C st1) \<longrightarrow> C st' = drop (length ?dst1 - m) (C st1))"
      using m i1 l1 assms(3) by (intro readn_loop_delivers [OF assms(1)]) simp_all
    then obtain st' where
        e: "InStream_readn_loop rd st1 ?dst1 m =
             Some (Inr (m + min (length dst - m) (length (C st1)),
                        take m ?dst1 @ take (length dst - m) (C st1) @ drop (m + length (C st1)) ?dst1, st'))"
      and i': "I st'"
      and c': "length dst - m \<le> length (C st1) \<longrightarrow> C st' = drop (length dst - m) (C st1)"
      unfolding l1 by blast
    have lc: "length (C st1) = length (C st) - m" using cs1 by simp
    have a1: "m + min (length dst - m) (length (C st1)) = min (length dst) (length (C st))"
      using m unfolding lc min_def by auto
    have t1: "take m ?dst1 = ?d" using ld by simp
    have t2: "?d @ take (length dst - m) (C st1) = take (length dst) (C st)"
    proof -
      have "take (m + (length dst - m)) (C st) = ?d @ take (length dst - m) (drop m (C st))"
        by (rule take_add)
      moreover have "m + (length dst - m) = length dst" using m by simp
      ultimately show ?thesis using cs1 by simp
    qed
    have t3: "drop (m + length (C st1)) ?dst1 = drop (length (C st)) dst"
    proof -
      have eq: "m + length (C st1) = length (C st)" using lc m by simp
      have "drop (length (C st)) (take 0 dst @ ?d @ drop (0 + m) dst) = drop (length (C st)) dst"
        using m ld by (intro drop_poked) simp_all
      then show ?thesis unfolding eq .
    qed
    have res: "take m ?dst1 @ take (length dst - m) (C st1) @ drop (m + length (C st1)) ?dst1 =
               take (length dst) (C st) @ drop (length (C st)) dst"
      unfolding t1 t3 using t2 by (metis append.assoc)
    have c'': "length dst \<le> length (C st) \<longrightarrow> C st' = drop (length dst) (C st)"
    proof
      assume h: "length dst \<le> length (C st)"
      then have "length dst - m \<le> length (C st1)" using lc by simp
      with c' have "C st' = drop (length dst - m) (drop m (C st))" using cs1 by simp
      also have "\<dots> = drop (length dst) (C st)"
      proof -
        have "length dst - m + m = length dst" using m by arith
        then show ?thesis by (simp only: drop_drop)
      qed
      finally show "C st' = drop (length dst) (C st)" .
    qed
    show ?thesis
      unfolding step e a1 res using i' c'' by simp
  qed
qed

lemma unread_Cons:
  assumes "in_top st < in_max st" and "in_max st \<le> length (in_buf st)"
  shows "unread st = in_buf st ! in_top st # unread (st\<lparr>in_top := in_top st + 1\<rparr>)"
proof -
  have lt: "in_top st < length (in_buf st)" using assms by simp
  have "in_max st - in_top st = Suc (in_max st - (in_top st + 1))" using assms by simp
  then have "unread st = take (Suc (in_max st - (in_top st + 1))) (drop (in_top st) (in_buf st))"
    by (simp add: unread_def)
  also have "drop (in_top st) (in_buf st) = in_buf st ! in_top st # drop (Suc (in_top st)) (in_buf st)"
    using lt by (simp add: Cons_nth_drop_Suc)
  finally show ?thesis by (simp add: unread_def)
qed

lemma buffered_readn_loop_delivers:
  assumes "delivers I C rd" and "I (inp st)" and "in_top st \<le> in_max st"
    and "in_max st \<le> length (in_buf st)" and "BUFSIZ \<le> length (in_buf st)"
  shows "\<exists>st'. BufferedInStream_readn_loop rd st acc k =
             Inr (length acc + min k (length (unread st @ C (inp st))),
                  acc @ take k (unread st @ C (inp st)), st') \<and>
           I (inp st') \<and> in_top st' \<le> in_max st' \<and> in_max st' \<le> length (in_buf st') \<and>
           BUFSIZ \<le> length (in_buf st') \<and>
           (k \<le> length (unread st @ C (inp st)) \<longrightarrow>
              unread st' @ C (inp st') = drop k (unread st @ C (inp st)))"
  using assms(2-)
proof (induction k arbitrary: st acc)
  case 0
  then show ?case by simp
next
  case (Suc k)
  have fetch_step: "\<exists>st'. (case fetch st1 of Inl e \<Rightarrow> Inl e
             | Inr (b, st2) \<Rightarrow> BufferedInStream_readn_loop rd st2 (acc @ [b]) k) =
             Inr (length acc + min (Suc k) (length (unread st1 @ C (inp st1))),
                  acc @ take (Suc k) (unread st1 @ C (inp st1)), st') \<and>
           I (inp st') \<and> in_top st' \<le> in_max st' \<and> in_max st' \<le> length (in_buf st') \<and>
           BUFSIZ \<le> length (in_buf st') \<and>
           (Suc k \<le> length (unread st1 @ C (inp st1)) \<longrightarrow>
              unread st' @ C (inp st') = drop (Suc k) (unread st1 @ C (inp st1)))"
    if w: "I (inp st1)" "in_top st1 < in_max st1" "in_max st1 \<le> length (in_buf st1)"
      "BUFSIZ \<le> length (in_buf st1)" for st1
  proof -
    let ?b = "in_buf st1 ! in_top st1"
    let ?st2 = "st1\<lparr>in_top := in_top st1 + 1\<rparr>"
    let ?T2 = "unread ?st2 @ C (inp ?st2)"
    have f: "fetch st1 = Inr (?b, ?st2)" using w by (simp add: fetch_def)
    have u: "unread st1 @ C (inp st1) = ?b # ?T2"
      using unread_Cons [OF w(2,3)] by simp
    have "\<exists>st'. BufferedInStream_readn_loop rd ?st2 (acc @ [?b]) k =
             Inr (length (acc @ [?b]) + min k (length ?T2), (acc @ [?b]) @ take k ?T2, st') \<and>
           I (inp st') \<and> in_top st' \<le> in_max st' \<and> in_max st' \<le> length (in_buf st') \<and>
           BUFSIZ \<le> length (in_buf st') \<and>
           (k \<le> length ?T2 \<longrightarrow> unread st' @ C (inp st') = drop k ?T2)"
      using w by (intro Suc.IH) simp_all
    then obtain st' where
        e: "BufferedInStream_readn_loop rd ?st2 (acc @ [?b]) k =
             Inr (length (acc @ [?b]) + min k (length ?T2), (acc @ [?b]) @ take k ?T2, st')"
      and b: "I (inp st')" "in_top st' \<le> in_max st'" "in_max st' \<le> length (in_buf st')"
        "BUFSIZ \<le> length (in_buf st')"
      and z: "k \<le> length ?T2 \<longrightarrow> unread st' @ C (inp st') = drop k ?T2"
      by blast
    have "(case fetch st1 of Inl e \<Rightarrow> Inl e
             | Inr (b, st2) \<Rightarrow> BufferedInStream_readn_loop rd st2 (acc @ [b]) k) =
          Inr (length acc + min (Suc k) (length (?b # ?T2)), acc @ take (Suc k) (?b # ?T2), st')"
      using f e by simp
    moreover have "Suc k \<le> length (?b # ?T2) \<longrightarrow> unread st' @ C (inp st') = drop (Suc k) (?b # ?T2)"
      using z by simp
    ultimately show ?thesis unfolding u using b by blast
  qed
  show ?case
  proof (cases "in_top st = in_max st")
    case True
    then have un: "unread st = []" by (simp add: unread_def)
    have bz: "BUFSIZ < 2 ^ 64" "0 < BUFSIZ" by (simp_all add: BUFSIZ_def)
    from deliversD [OF assms(1) Suc.prems(1) bz(1)] obtain m in1 where
        r: "rd (inp st) BUFSIZ = Inr (m, take m (C (inp st)), in1)"
      and m: "m \<le> BUFSIZ" "m \<le> length (C (inp st))" and i1: "I in1"
      and pos: "0 < BUFSIZ \<and> C (inp st) \<noteq> [] \<longrightarrow> 0 < m"
      and c1: "0 < m \<or> BUFSIZ = 0 \<longrightarrow> C in1 = drop m (C (inp st))"
      by blast
    let ?d = "take m (C (inp st))"
    have ld: "length ?d = m" using m by simp
    let ?st1 = "st\<lparr>inp := in1, in_buf := ?d @ drop (length ?d) (in_buf st), in_top := 0, in_max := m\<rparr>"
    have rf: "refill rd st = Inr (m \<noteq> 0, ?st1)"
      using r m Suc.prems ld by (intro refill_Inr) simp_all
    show ?thesis
    proof (cases "m = 0")
      case z: True
      with pos bz have e: "C (inp st) = []" by simp
      have "BufferedInStream_readn_loop rd st acc (Suc k) = Inr (length acc, acc, ?st1)"
        using True rf z by simp
      then show ?thesis using i1 Suc.prems z e un by simp
    next
      case nz: False
      then have cs1: "C in1 = drop m (C (inp st))" using c1 by simp
      have s: "BufferedInStream_readn_loop rd st acc (Suc k) =
          (case fetch ?st1 of Inl e \<Rightarrow> Inl e
             | Inr (b, st2) \<Rightarrow> BufferedInStream_readn_loop rd st2 (acc @ [b]) k)"
        using True rf nz by simp
      have u1: "unread ?st1 = ?d" using ld by (simp add: unread_def)
      have t: "unread ?st1 @ C (inp ?st1) = unread st @ C (inp st)"
        using u1 cs1 un by simp
      have "\<exists>st'. (case fetch ?st1 of Inl e \<Rightarrow> Inl e
             | Inr (b, st2) \<Rightarrow> BufferedInStream_readn_loop rd st2 (acc @ [b]) k) =
             Inr (length acc + min (Suc k) (length (unread ?st1 @ C (inp ?st1))),
                  acc @ take (Suc k) (unread ?st1 @ C (inp ?st1)), st') \<and>
           I (inp st') \<and> in_top st' \<le> in_max st' \<and> in_max st' \<le> length (in_buf st') \<and>
           BUFSIZ \<le> length (in_buf st') \<and>
           (Suc k \<le> length (unread ?st1 @ C (inp ?st1)) \<longrightarrow>
              unread st' @ C (inp st') = drop (Suc k) (unread ?st1 @ C (inp ?st1)))"
        using i1 m nz Suc.prems ld by (intro fetch_step) simp_all
      then show ?thesis unfolding s t .
    qed
  next
    case False
    have s: "BufferedInStream_readn_loop rd st acc (Suc k) =
          (case fetch st of Inl e \<Rightarrow> Inl e
             | Inr (b, st2) \<Rightarrow> BufferedInStream_readn_loop rd st2 (acc @ [b]) k)"
      using False by simp
    show ?thesis
      unfolding s using False Suc.prems by (intro fetch_step) simp_all
  qed
qed

lemma readn_loop_numeral:
  "BufferedInStream_readn_loop rd st acc (numeral v) =
     (case (if in_top st = in_max st then refill rd st else Inr (True, st)) of
        Inl e \<Rightarrow> Inl e
      | Inr (False, st1) \<Rightarrow> Inr (length acc, acc, st1)
      | Inr (True, st1) \<Rightarrow>
          (case fetch st1 of
             Inl e \<Rightarrow> Inl e
           | Inr (b, st2) \<Rightarrow> BufferedInStream_readn_loop rd st2 (acc @ [b]) (pred_numeral v)))"
  by (simp only: numeral_eq_Suc BufferedInStream_readn_loop.simps)

text \<open>
  \<^verbatim>\<open>getchar\<close> returns the \<^verbatim>\<open>char\<close> it read as an \<^verbatim>\<open>int\<close>. Where \<^verbatim>\<open>char\<close> is
  signed, the byte 255 becomes \<open>- 1\<close>, which is \<^verbatim>\<open>EOF\<close>: both implementations of
  \<^verbatim>\<open>getchar\<close> report the end of the stream for it.
\<close>

lemma getchar_of_byte_255:
  "InStream_getchar UnixFileInStream_read \<lparr>source = [Data [255, 10]], reads = 0, in_errno = 0\<rparr> =
     Inr (EOF, \<lparr>source = [Data [10]], reads = 1, in_errno = 0\<rparr>)
   \<and> BufferedInStream_getchar UnixFileInStream_read
       (BufferedInStream_new \<lparr>source = [Data [255, 10]], reads = 0, in_errno = 0\<rparr> []) =
     Inr (EOF, \<lparr>inp = \<lparr>source = [], reads = 1, in_errno = 0\<rparr>,
                 in_buf = [255, 10] @ replicate 8190 0, in_top = 1, in_max = 2\<rparr>)"
  by (simp add: eval_unix_getchar BufferedInStream_getchar_def BufferedInStream_new_def refill_def
      fetch_def poke_def valloc_def BUFSIZ_def)

section \<open>The claims about the input side\<close>

text \<open>
  C4. The claim: a negative result of the system call raises an error that carries the
  error number. What the code does: the result is assigned to a \<^verbatim>\<open>size_t\<close> before it
  is tested, so the test \<^verbatim>\<open>n < 0\<close> never holds. A failing \<^verbatim>\<open>::read\<close> makes
  \<^verbatim>\<open>UnixFileInStream::read\<close> return the count \<open>2 ^ 64 - 1\<close>, and no call of it ever
  throws. In \<^verbatim>\<open>UnixFileOutStream::write\<close> a failing first \<^verbatim>\<open>::write\<close> sends the loop
  on with \<^verbatim>\<open>written\<close> equal to \<open>2 ^ 64 - 1\<close>, beyond the end of the block; a failing
  \<^verbatim>\<open>::write\<close> inside the loop moves \<^verbatim>\<open>written\<close> back by one, so that the call
  returns normally after it has sent one byte twice.
\<close>

theorem negative_result_is_taken_for_a_count:
  "UnixFileInStream_read \<lparr>source = [RdFail 5], reads = 0, in_errno = 0\<rparr> 10 =
     Inr (18446744073709551615, [], \<lparr>source = [], reads = 1, in_errno = 5\<rparr>)
   \<and> (\<forall>os len e. UnixFileInStream_read os len \<noteq> Inl e)
   \<and> UnixFileOutStream_write
       \<lparr>behaviour = (\<lambda>_. WrFail 5), calls = 0, received = [], errno = 0, closed = False\<rparr> [1, 2, 3] =
     Some (Inl Fault)
   \<and> UnixFileOutStream_write os_interrupted [1, 2, 3, 4, 5] =
     Some (Inr (os_interrupted\<lparr>calls := 3, received := [1, 2, 2, 3, 4, 5], errno := 4\<rparr>))"
proof (intro conjI)
  show "UnixFileInStream_read \<lparr>source = [RdFail 5], reads = 0, in_errno = 0\<rparr> 10 =
     Inr (18446744073709551615, [], \<lparr>source = [], reads = 1, in_errno = 5\<rparr>)"
    by (simp add: UnixFileInStream_read_def os_read_def)
  show "\<forall>os len e. UnixFileInStream_read os len \<noteq> Inl e"
    by (auto simp: UnixFileInStream_read_def split: prod.splits)
  show "UnixFileOutStream_write
       \<lparr>behaviour = (\<lambda>_. WrFail 5), calls = 0, received = [], errno = 0, closed = False\<rparr> [1, 2, 3] =
     Some (Inl Fault)"
    by (simp add: UnixFileOutStream_write_def os_write_def UnixFileOutStream_write_loop.simps)
  show "UnixFileOutStream_write os_interrupted [1, 2, 3, 4, 5] =
     Some (Inr (os_interrupted\<lparr>calls := 3, received := [1, 2, 2, 3, 4, 5], errno := 4\<rparr>))"
    by (simp add: UnixFileOutStream_write_def os_write_def os_interrupted_def size_t_of_def
        UnixFileOutStream_write_loop.simps)
qed

text \<open>
  C5. A call \<^verbatim>\<open>read(dst, len)\<close> of the buffered stream with \<open>len > 0\<close>. When the buffer
  is exhausted at the call, the wrapped stream is read once, for \<^verbatim>\<open>BUFSIZ\<close> bytes, and
  the call returns the first \<open>min len m\<close> of the \<open>m\<close> bytes this one read delivered; it
  returns 0 when \<open>m = 0\<close>. The wrapped stream is left in the state that this one read
  produced. When the buffer holds unread bytes at the call, the call returns
  \<open>min len (max - top)\<close> of them and leaves the wrapped stream as it was.
\<close>

theorem buffered_read_refills_at_most_once:
  assumes "0 < len"
  shows "(in_top st = in_max st \<and> rd (inp st) BUFSIZ = Inr (m, d, in') \<and> length d = m \<and>
            m \<le> length (in_buf st) \<longrightarrow>
            BufferedInStream_read rd st len =
              Inr (min len m, take (min len m) d,
                   st\<lparr>inp := in', in_buf := d @ drop m (in_buf st), in_top := min len m, in_max := m\<rparr>))
       \<and> (in_top st < in_max st \<and> in_max st \<le> length (in_buf st) \<longrightarrow>
            BufferedInStream_read rd st len =
              Inr (min len (in_max st - in_top st),
                   take (min len (in_max st - in_top st)) (drop (in_top st) (in_buf st)),
                   st\<lparr>in_top := in_top st + min len (in_max st - in_top st)\<rparr>))"
proof (intro conjI impI)
  obtain k where k: "len = Suc k" using assms by (cases len) auto
  {
    assume a: "in_top st = in_max st \<and> rd (inp st) BUFSIZ = Inr (m, d, in') \<and> length d = m \<and>
            m \<le> length (in_buf st)"
    let ?st1 = "st\<lparr>inp := in', in_buf := d @ drop (length d) (in_buf st), in_top := 0, in_max := m\<rparr>"
    have r: "refill rd st = Inr (m \<noteq> 0, ?st1)"
      using a by (intro refill_Inr) simp_all
    show "BufferedInStream_read rd st len =
              Inr (min len m, take (min len m) d,
                   st\<lparr>inp := in', in_buf := d @ drop m (in_buf st), in_top := min len m, in_max := m\<rparr>)"
    proof (cases "m = 0")
      case True
      then show ?thesis using a r by (simp add: BufferedInStream_read_def k)
    next
      case False
      have s: "BufferedInStream_read_loop rd st [] (Suc k) = BufferedInStream_read_loop rd ?st1 [] (Suc k)"
        using a r False by simp
      have c: "BufferedInStream_read_loop rd ?st1 [] (Suc k) =
           Inr (length ([] :: byte list) + min (Suc k) (in_max ?st1 - in_top ?st1),
                [] @ take (min (Suc k) (in_max ?st1 - in_top ?st1)) (drop (in_top ?st1) (in_buf ?st1)),
                ?st1\<lparr>in_top := in_top ?st1 + min (Suc k) (in_max ?st1 - in_top ?st1)\<rparr>)"
        using a False by (intro read_loop_copy) simp_all
      show ?thesis
        unfolding BufferedInStream_read_def k s c using a by simp
    qed
  next
    assume a: "in_top st < in_max st \<and> in_max st \<le> length (in_buf st)"
    have "BufferedInStream_read_loop rd st [] len =
           Inr (length ([] :: byte list) + min len (in_max st - in_top st),
                [] @ take (min len (in_max st - in_top st)) (drop (in_top st) (in_buf st)),
                st\<lparr>in_top := in_top st + min len (in_max st - in_top st)\<rparr>)"
      using a by (intro read_loop_copy) simp_all
    then show "BufferedInStream_read rd st len =
              Inr (min len (in_max st - in_top st),
                   take (min len (in_max st - in_top st)) (drop (in_top st) (in_buf st)),
                   st\<lparr>in_top := in_top st + min len (in_max st - in_top st)\<rparr>)"
      by (simp add: BufferedInStream_read_def)
  }
qed

theorem buffered_read_refills_at_most_once_witness:
  "(0 :: nat) < 2 \<and>
   in_top (BufferedInStream_new file4 []) = in_max (BufferedInStream_new file4 []) \<and>
   UnixFileInStream_read (inp (BufferedInStream_new file4 [])) BUFSIZ =
     Inr (4, [1, 2, 3, 4], \<lparr>source = [], reads = 1, in_errno = 0\<rparr>) \<and>
   length [1, 2, 3, 4 :: byte] = 4 \<and> 4 \<le> length (in_buf (BufferedInStream_new file4 [])) \<and>
   BufferedInStream_read UnixFileInStream_read (BufferedInStream_new file4 []) 2 =
     Inr (2, [1, 2],
          \<lparr>inp = \<lparr>source = [], reads = 1, in_errno = 0\<rparr>,
             in_buf = [1, 2, 3, 4] @ replicate 8188 0, in_top = 2, in_max = 4\<rparr>) \<and>
   (0 :: nat) < 10 \<and> (2 :: nat) < 4 \<and> 4 \<le> length ([1, 2, 3, 4] @ replicate 8188 (0 :: byte)) \<and>
   BufferedInStream_read UnixFileInStream_read
       \<lparr>inp = \<lparr>source = [], reads = 1, in_errno = 0\<rparr>,
          in_buf = [1, 2, 3, 4] @ replicate 8188 0, in_top = 2, in_max = 4\<rparr> 10 =
     Inr (2, [3, 4],
          \<lparr>inp = \<lparr>source = [], reads = 1, in_errno = 0\<rparr>,
             in_buf = [1, 2, 3, 4] @ replicate 8188 0, in_top = 4, in_max = 4\<rparr>)"
proof -
  let ?new = "BufferedInStream_new file4 []"
  let ?os1 = "\<lparr>source = [], reads = 1, in_errno = 0\<rparr>"
  let ?st1 = "\<lparr>inp = ?os1, in_buf = [1, 2, 3, 4] @ replicate 8188 0, in_top = 2, in_max = 4\<rparr>"
  have h1: "in_top ?new = in_max ?new \<and>
      UnixFileInStream_read (inp ?new) BUFSIZ = Inr (4, [1, 2, 3, 4], ?os1) \<and>
      length [1, 2, 3, 4 :: byte] = 4 \<and> 4 \<le> length (in_buf ?new)"
    by (simp add: BufferedInStream_new_def file4_def UnixFileInStream_read_def os_read_def
        size_t_of_def BUFSIZ_def)
  have h2: "in_top ?st1 < in_max ?st1 \<and> in_max ?st1 \<le> length (in_buf ?st1)"
    by simp
  have p2: "(0 :: nat) < 2" and p10: "(0 :: nat) < 10" by simp_all
  have c1: "BufferedInStream_read UnixFileInStream_read ?new 2 = Inr (2, [1, 2], ?st1)"
    using buffered_read_refills_at_most_once
      [OF p2, of ?new UnixFileInStream_read 4 "[1, 2, 3, 4]" ?os1, THEN conjunct1, rule_format, OF h1]
    by (simp add: BufferedInStream_new_def BUFSIZ_def valloc_def)
  have c2: "BufferedInStream_read UnixFileInStream_read ?st1 10 = Inr (2, [3, 4], ?st1\<lparr>in_top := 4\<rparr>)"
    using buffered_read_refills_at_most_once
      [OF p10, of ?st1 UnixFileInStream_read, THEN conjunct2, rule_format, OF h2]
    by simp
  show ?thesis using h1 c1 c2 by simp
qed

text \<open>
  C6. \<^verbatim>\<open>readn\<close>, both the one of \<^verbatim>\<open>InStream\<close> and the one of \<^verbatim>\<open>BufferedInStream\<close>,
  on a stream that delivers the bytes \<open>C\<close> before its next end of stream. The call
  returns; the count it returns is the smaller of \<^verbatim>\<open>len\<close> and the number of bytes ahead
  (for the buffered stream: the unread bytes of the buffer followed by those of the wrapped
  stream); the destination holds exactly these bytes, in order, and is unchanged behind
  them; a call that returns \<^verbatim>\<open>len\<close> leaves the rest of the bytes ahead in the stream. So
  the count is less than \<^verbatim>\<open>len\<close> only when the stream ended before \<^verbatim>\<open>len\<close> bytes, and
  then a read of the underlying stream returned 0, which is the last read the call made.
  Against a source that yields four bytes and then the end of the stream, in one piece or
  in two, \<^verbatim>\<open>readn(dst, 10)\<close> returns 4 and the next call returns 0; \<^verbatim>\<open>readn(dst, 3)\<close>
  returns the first three bytes and leaves the fourth.
\<close>

theorem readn_collects_until_full_or_end_of_stream:
  "(delivers I C rd \<and> I st \<and> length dst < 2 ^ 64 \<longrightarrow>
      (\<exists>st'. InStream_readn rd st dst =
           Some (Inr (min (length dst) (length (C st)),
                      take (length dst) (C st) @ drop (length (C st)) dst, st')) \<and>
         I st' \<and> (length dst \<le> length (C st) \<longrightarrow> C st' = drop (length dst) (C st))))
   \<and> (delivers I C rd \<and> I (inp bst) \<and> in_top bst \<le> in_max bst \<and> in_max bst \<le> length (in_buf bst) \<and>
        BUFSIZ \<le> length (in_buf bst) \<longrightarrow>
      (\<exists>bst'. BufferedInStream_readn rd bst len =
           Inr (min len (length (unread bst @ C (inp bst))), take len (unread bst @ C (inp bst)), bst') \<and>
         I (inp bst') \<and> in_top bst' \<le> in_max bst' \<and> in_max bst' \<le> length (in_buf bst') \<and>
         BUFSIZ \<le> length (in_buf bst') \<and>
         (len \<le> length (unread bst @ C (inp bst)) \<longrightarrow>
            unread bst' @ C (inp bst') = drop len (unread bst @ C (inp bst)))))
   \<and> (honours J rd \<and> J st \<and> length dst < 2 ^ 64 \<longrightarrow>
      (\<exists>n dst' st'. InStream_readn rd st dst = Some (Inr (n, dst', st')) \<and> n \<le> length dst \<and>
          length dst' = length dst \<and> J st' \<and>
          (n < length dst \<longrightarrow> (\<exists>st0 k d0. 0 < k \<and> rd st0 k = Inr (0, d0, st')))))
   \<and> (honours J rd \<and> J (inp bst) \<and> in_top bst \<le> in_max bst \<and> in_max bst \<le> length (in_buf bst) \<and>
        BUFSIZ \<le> length (in_buf bst) \<longrightarrow>
      (\<exists>n d bst'. BufferedInStream_readn rd bst len = Inr (n, d, bst') \<and> n = length d \<and> n \<le> len \<and>
          J (inp bst') \<and> (n < len \<longrightarrow> (\<exists>i0 d0. rd i0 BUFSIZ = Inr (0, d0, inp bst')))))
   \<and> InStream_readn UnixFileInStream_read file4 (replicate 10 0) =
       Some (Inr (4, [1, 2, 3, 4] @ replicate 6 0, \<lparr>source = [], reads = 2, in_errno = 0\<rparr>))
   \<and> InStream_readn UnixFileInStream_read \<lparr>source = [], reads = 2, in_errno = 0\<rparr> (replicate 10 0) =
       Some (Inr (0, replicate 10 0, \<lparr>source = [], reads = 3, in_errno = 0\<rparr>))
   \<and> InStream_readn UnixFileInStream_read file22 (replicate 10 0) =
       Some (Inr (4, [1, 2, 3, 4] @ replicate 6 0, \<lparr>source = [], reads = 3, in_errno = 0\<rparr>))
   \<and> InStream_readn UnixFileInStream_read \<lparr>source = [], reads = 3, in_errno = 0\<rparr> (replicate 10 0) =
       Some (Inr (0, replicate 10 0, \<lparr>source = [], reads = 4, in_errno = 0\<rparr>))
   \<and> InStream_readn UnixFileInStream_read file22 (replicate 3 0) =
       Some (Inr (3, [1, 2, 3], \<lparr>source = [Data [4]], reads = 2, in_errno = 0\<rparr>))
   \<and> BufferedInStream_readn UnixFileInStream_read (BufferedInStream_new file4 []) 10 =
       Inr (4, [1, 2, 3, 4],
            \<lparr>inp = \<lparr>source = [], reads = 2, in_errno = 0\<rparr>,
               in_buf = [1, 2, 3, 4] @ replicate 8188 0, in_top = 0, in_max = 0\<rparr>)
   \<and> BufferedInStream_readn UnixFileInStream_read
         \<lparr>inp = \<lparr>source = [], reads = 2, in_errno = 0\<rparr>,
            in_buf = [1, 2, 3, 4] @ replicate 8188 0, in_top = 0, in_max = 0\<rparr> 10 =
       Inr (0, [],
            \<lparr>inp = \<lparr>source = [], reads = 3, in_errno = 0\<rparr>,
               in_buf = [1, 2, 3, 4] @ replicate 8188 0, in_top = 0, in_max = 0\<rparr>)
   \<and> BufferedInStream_readn UnixFileInStream_read (BufferedInStream_new file22 []) 10 =
       Inr (4, [1, 2, 3, 4],
            \<lparr>inp = \<lparr>source = [], reads = 3, in_errno = 0\<rparr>,
               in_buf = [3, 4] @ replicate 8190 0, in_top = 0, in_max = 0\<rparr>)
   \<and> BufferedInStream_readn UnixFileInStream_read (BufferedInStream_new file22 []) 3 =
       Inr (3, [1, 2, 3],
            \<lparr>inp = \<lparr>source = [], reads = 2, in_errno = 0\<rparr>,
               in_buf = [3, 4] @ replicate 8190 0, in_top = 1, in_max = 2\<rparr>)"
proof (intro conjI impI)
  assume a: "delivers I C rd \<and> I st \<and> length dst < 2 ^ 64"
  then show "\<exists>st'. InStream_readn rd st dst =
           Some (Inr (min (length dst) (length (C st)),
                      take (length dst) (C st) @ drop (length (C st)) dst, st')) \<and>
         I st' \<and> (length dst \<le> length (C st) \<longrightarrow> C st' = drop (length dst) (C st))"
    by (intro readn_delivers) simp_all
next
  assume a: "delivers I C rd \<and> I (inp bst) \<and> in_top bst \<le> in_max bst \<and> in_max bst \<le> length (in_buf bst) \<and>
        BUFSIZ \<le> length (in_buf bst)"
  then have "\<exists>st'. BufferedInStream_readn_loop rd bst [] len =
             Inr (length ([] :: byte list) + min len (length (unread bst @ C (inp bst))),
                  [] @ take len (unread bst @ C (inp bst)), st') \<and>
           I (inp st') \<and> in_top st' \<le> in_max st' \<and> in_max st' \<le> length (in_buf st') \<and>
           BUFSIZ \<le> length (in_buf st') \<and>
           (len \<le> length (unread bst @ C (inp bst)) \<longrightarrow>
              unread st' @ C (inp st') = drop len (unread bst @ C (inp bst)))"
    by (intro buffered_readn_loop_delivers) simp_all
  then show "\<exists>bst'. BufferedInStream_readn rd bst len =
           Inr (min len (length (unread bst @ C (inp bst))), take len (unread bst @ C (inp bst)), bst') \<and>
         I (inp bst') \<and> in_top bst' \<le> in_max bst' \<and> in_max bst' \<le> length (in_buf bst') \<and>
         BUFSIZ \<le> length (in_buf bst') \<and>
         (len \<le> length (unread bst @ C (inp bst)) \<longrightarrow>
            unread bst' @ C (inp bst') = drop len (unread bst @ C (inp bst)))"
    unfolding BufferedInStream_readn_def list.size add_0 append_Nil .
next
  assume a: "honours J rd \<and> J st \<and> length dst < 2 ^ 64"
  then have "\<exists>n dst' st'. InStream_readn rd st dst = Some (Inr (n, dst', st')) \<and>
           n \<le> length dst \<and> length dst' = length dst \<and> J st' \<and>
           (n < length dst \<longrightarrow> (\<exists>st0 k d0. 0 < k \<and> rd st0 k = Inr (0, d0, st')))"
    by (intro readn_total) simp_all
  then show "\<exists>n dst' st'. InStream_readn rd st dst = Some (Inr (n, dst', st')) \<and> n \<le> length dst \<and>
          length dst' = length dst \<and> J st' \<and>
          (n < length dst \<longrightarrow> (\<exists>st0 k d0. 0 < k \<and> rd st0 k = Inr (0, d0, st')))" .
next
  assume a: "honours J rd \<and> J (inp bst) \<and> in_top bst \<le> in_max bst \<and> in_max bst \<le> length (in_buf bst) \<and>
        BUFSIZ \<le> length (in_buf bst)"
  then have "\<exists>n d st'. BufferedInStream_readn_loop rd bst [] len = Inr (n, d, st') \<and> n = length d \<and>
           length ([] :: byte list) \<le> n \<and> n \<le> length ([] :: byte list) + len \<and>
           take (length ([] :: byte list)) d = [] \<and> J (inp st') \<and>
           in_top st' \<le> in_max st' \<and> in_max st' \<le> length (in_buf st') \<and> BUFSIZ \<le> length (in_buf st') \<and>
           (n < length ([] :: byte list) + len \<longrightarrow> (\<exists>i0 d0. rd i0 BUFSIZ = Inr (0, d0, inp st')))"
    by (intro buffered_readn_loop_total) simp_all
  then obtain n d st' where "BufferedInStream_readn_loop rd bst [] len = Inr (n, d, st')"
      "n = length d" "n \<le> len" "J (inp st')"
      "n < len \<longrightarrow> (\<exists>i0 d0. rd i0 BUFSIZ = Inr (0, d0, inp st'))"
    unfolding list.size add_0 by blast
  then show "\<exists>n d bst'. BufferedInStream_readn rd bst len = Inr (n, d, bst') \<and> n = length d \<and> n \<le> len \<and>
          J (inp bst') \<and> (n < len \<longrightarrow> (\<exists>i0 d0. rd i0 BUFSIZ = Inr (0, d0, inp bst')))"
    unfolding BufferedInStream_readn_def by blast
next
  show "InStream_readn UnixFileInStream_read file4 (replicate 10 0) =
       Some (Inr (4, [1, 2, 3, 4] @ replicate 6 0, \<lparr>source = [], reads = 2, in_errno = 0\<rparr>))"
    by (simp add: InStream_readn_def UnixFileInStream_read_def os_read_def file4_def size_t_of_def
        poke_def InStream_readn_loop.simps)
next
  show "InStream_readn UnixFileInStream_read \<lparr>source = [], reads = 2, in_errno = 0\<rparr> (replicate 10 0) =
       Some (Inr (0, replicate 10 0, \<lparr>source = [], reads = 3, in_errno = 0\<rparr>))"
    by (simp add: InStream_readn_def UnixFileInStream_read_def os_read_def size_t_of_def poke_def)
next
  show "InStream_readn UnixFileInStream_read file22 (replicate 10 0) =
       Some (Inr (4, [1, 2, 3, 4] @ replicate 6 0, \<lparr>source = [], reads = 3, in_errno = 0\<rparr>))"
    by (simp add: InStream_readn_def UnixFileInStream_read_def os_read_def file22_def size_t_of_def
        poke_def InStream_readn_loop.simps)
next
  show "InStream_readn UnixFileInStream_read \<lparr>source = [], reads = 3, in_errno = 0\<rparr> (replicate 10 0) =
       Some (Inr (0, replicate 10 0, \<lparr>source = [], reads = 4, in_errno = 0\<rparr>))"
    by (simp add: InStream_readn_def UnixFileInStream_read_def os_read_def size_t_of_def poke_def)
next
  show "InStream_readn UnixFileInStream_read file22 (replicate 3 0) =
       Some (Inr (3, [1, 2, 3], \<lparr>source = [Data [4]], reads = 2, in_errno = 0\<rparr>))"
    by (simp add: InStream_readn_def UnixFileInStream_read_def os_read_def file22_def size_t_of_def
        poke_def InStream_readn_loop.simps)
next
  show "BufferedInStream_readn UnixFileInStream_read (BufferedInStream_new file4 []) 10 =
       Inr (4, [1, 2, 3, 4],
            \<lparr>inp = \<lparr>source = [], reads = 2, in_errno = 0\<rparr>,
               in_buf = [1, 2, 3, 4] @ replicate 8188 0, in_top = 0, in_max = 0\<rparr>)"
    by (simp add: BufferedInStream_readn_def BufferedInStream_new_def valloc_def BUFSIZ_def refill_def
        fetch_def poke_def UnixFileInStream_read_def os_read_def file4_def size_t_of_def
        readn_loop_numeral)
next
  show "BufferedInStream_readn UnixFileInStream_read
         \<lparr>inp = \<lparr>source = [], reads = 2, in_errno = 0\<rparr>,
            in_buf = [1, 2, 3, 4] @ replicate 8188 0, in_top = 0, in_max = 0\<rparr> 10 =
       Inr (0, [],
            \<lparr>inp = \<lparr>source = [], reads = 3, in_errno = 0\<rparr>,
               in_buf = [1, 2, 3, 4] @ replicate 8188 0, in_top = 0, in_max = 0\<rparr>)"
    by (simp add: BufferedInStream_readn_def BUFSIZ_def refill_def
        fetch_def poke_def UnixFileInStream_read_def os_read_def size_t_of_def
        readn_loop_numeral)
next
  show "BufferedInStream_readn UnixFileInStream_read (BufferedInStream_new file22 []) 10 =
       Inr (4, [1, 2, 3, 4],
            \<lparr>inp = \<lparr>source = [], reads = 3, in_errno = 0\<rparr>,
               in_buf = [3, 4] @ replicate 8190 0, in_top = 0, in_max = 0\<rparr>)"
    by (simp add: BufferedInStream_readn_def BufferedInStream_new_def valloc_def BUFSIZ_def refill_def
        fetch_def poke_def UnixFileInStream_read_def os_read_def file22_def size_t_of_def
        readn_loop_numeral)
next
  show "BufferedInStream_readn UnixFileInStream_read (BufferedInStream_new file22 []) 3 =
       Inr (3, [1, 2, 3],
            \<lparr>inp = \<lparr>source = [], reads = 2, in_errno = 0\<rparr>,
               in_buf = [3, 4] @ replicate 8190 0, in_top = 1, in_max = 2\<rparr>)"
    by (simp add: BufferedInStream_readn_def BufferedInStream_new_def valloc_def BUFSIZ_def refill_def
        fetch_def poke_def UnixFileInStream_read_def os_read_def file22_def size_t_of_def
        readn_loop_numeral)
qed

theorem readn_collects_until_full_or_end_of_stream_witness:
  "delivers no_failures (\<lambda>os. avail (source os)) UnixFileInStream_read \<and>
   honours no_failures UnixFileInStream_read \<and> no_failures file22 \<and>
   length (replicate 10 (0 :: byte)) < 2 ^ 64 \<and>
   no_failures (inp (BufferedInStream_new file22 [])) \<and>
   in_top (BufferedInStream_new file22 []) \<le> in_max (BufferedInStream_new file22 []) \<and>
   in_max (BufferedInStream_new file22 []) \<le> length (in_buf (BufferedInStream_new file22 [])) \<and>
   BUFSIZ \<le> length (in_buf (BufferedInStream_new file22 [])) \<and>
   (\<exists>st'. InStream_readn UnixFileInStream_read file22 (replicate 10 0) =
        Some (Inr (min (length (replicate 10 (0 :: byte))) (length (avail (source file22))),
                   take (length (replicate 10 (0 :: byte))) (avail (source file22)) @
                     drop (length (avail (source file22))) (replicate 10 0), st')) \<and>
      no_failures st' \<and>
      (length (replicate 10 (0 :: byte)) \<le> length (avail (source file22)) \<longrightarrow>
         avail (source st') = drop (length (replicate 10 (0 :: byte))) (avail (source file22)))) \<and>
   (\<exists>bst'. BufferedInStream_readn UnixFileInStream_read (BufferedInStream_new file22 []) 10 =
        Inr (min 10 (length (unread (BufferedInStream_new file22 []) @
                               avail (source (inp (BufferedInStream_new file22 []))))),
             take 10 (unread (BufferedInStream_new file22 []) @
                        avail (source (inp (BufferedInStream_new file22 [])))), bst') \<and>
      no_failures (inp bst') \<and> in_top bst' \<le> in_max bst' \<and> in_max bst' \<le> length (in_buf bst') \<and>
      BUFSIZ \<le> length (in_buf bst') \<and>
      (10 \<le> length (unread (BufferedInStream_new file22 []) @
                       avail (source (inp (BufferedInStream_new file22 [])))) \<longrightarrow>
         unread bst' @ avail (source (inp bst')) =
           drop 10 (unread (BufferedInStream_new file22 []) @
                      avail (source (inp (BufferedInStream_new file22 [])))))) \<and>
   (\<exists>n dst' st'. InStream_readn UnixFileInStream_read file22 (replicate 10 0) = Some (Inr (n, dst', st')) \<and>
       n \<le> length (replicate 10 (0 :: byte)) \<and> length dst' = length (replicate 10 (0 :: byte)) \<and>
       no_failures st' \<and>
       (n < length (replicate 10 (0 :: byte)) \<longrightarrow>
          (\<exists>st0 k d0. 0 < k \<and> UnixFileInStream_read st0 k = Inr (0, d0, st')))) \<and>
   (\<exists>n d bst'. BufferedInStream_readn UnixFileInStream_read (BufferedInStream_new file22 []) 10 =
         Inr (n, d, bst') \<and> n = length d \<and> n \<le> 10 \<and> no_failures (inp bst') \<and>
       (n < 10 \<longrightarrow> (\<exists>i0 d0. UnixFileInStream_read i0 BUFSIZ = Inr (0, d0, inp bst')))) \<and>
   min (length (replicate 10 (0 :: byte))) (length (avail (source file22))) = 4 \<and>
   take (length (replicate 10 (0 :: byte))) (avail (source file22)) @
     drop (length (avail (source file22))) (replicate 10 0) = [1, 2, 3, 4] @ replicate 6 0"
proof -
  let ?new = "BufferedInStream_new file22 [] :: os_in BufferedInStream"
  let ?C = "\<lambda>os. avail (source os)"
  have dl: "delivers no_failures ?C UnixFileInStream_read"
    by (rule unix_read_delivers)
  have h: "honours no_failures UnixFileInStream_read"
    by (rule unix_read_honours)
  have f: "no_failures file22"
    by (simp add: no_failures_def file22_def)
  have l: "length (replicate 10 (0 :: byte)) < 2 ^ 64"
    by simp
  have w: "no_failures (inp ?new) \<and> in_top ?new \<le> in_max ?new \<and>
      in_max ?new \<le> length (in_buf ?new) \<and> BUFSIZ \<le> length (in_buf ?new)"
    using f by (simp add: BufferedInStream_new_def)
  have a1: "delivers no_failures ?C UnixFileInStream_read \<and> no_failures file22 \<and>
      length (replicate 10 (0 :: byte)) < 2 ^ 64"
    using dl f l by (intro conjI)
  have a2: "delivers no_failures ?C UnixFileInStream_read \<and> no_failures (inp ?new) \<and>
      in_top ?new \<le> in_max ?new \<and> in_max ?new \<le> length (in_buf ?new) \<and>
      BUFSIZ \<le> length (in_buf ?new)"
    using dl w by (intro conjI) simp_all
  have a3: "honours no_failures UnixFileInStream_read \<and> no_failures file22 \<and>
      length (replicate 10 (0 :: byte)) < 2 ^ 64"
    using h f l by (intro conjI)
  have a4: "honours no_failures UnixFileInStream_read \<and> no_failures (inp ?new) \<and>
      in_top ?new \<le> in_max ?new \<and> in_max ?new \<le> length (in_buf ?new) \<and>
      BUFSIZ \<le> length (in_buf ?new)"
    using h w by (intro conjI) simp_all
  note t = readn_collects_until_full_or_end_of_stream
    [of no_failures ?C UnixFileInStream_read file22 "replicate 10 0" ?new 10 no_failures]
  note c1 = t [THEN conjunct1, rule_format, OF a1]
  note c2 = t [THEN conjunct2, THEN conjunct1, rule_format, OF a2]
  note c3 = t [THEN conjunct2, THEN conjunct2, THEN conjunct1, rule_format, OF a3]
  note c4 = t [THEN conjunct2, THEN conjunct2, THEN conjunct2, THEN conjunct1, rule_format, OF a4]
  have v1: "min (length (replicate 10 (0 :: byte))) (length (avail (source file22))) = 4"
    by (simp add: file22_def)
  have v2: "take (length (replicate 10 (0 :: byte))) (avail (source file22)) @
     drop (length (avail (source file22))) (replicate 10 0) = [1, 2, 3, 4] @ replicate 6 (0 :: byte)"
    by (simp add: file22_def)
  show ?thesis
    apply (intro conjI)
                 apply (rule dl)
                apply (rule h)
               apply (rule f)
              apply (rule l)
             apply (rule w [THEN conjunct1])
            apply (rule w [THEN conjunct2, THEN conjunct1])
           apply (rule w [THEN conjunct2, THEN conjunct2, THEN conjunct1])
          apply (rule w [THEN conjunct2, THEN conjunct2, THEN conjunct2])
         apply (rule c1)
        apply (rule c2)
       apply (rule c3)
      apply (rule c4)
     apply (rule v1)
    apply (rule v2)
    done
qed

text \<open>
  C10. \<^verbatim>\<open>read(dst, 0)\<close> returns 0, stores nothing and leaves the stream as it was: the
  descriptor has seen no call, and the result of the buffered stream does not depend on
  the wrapped stream at all.
\<close>

theorem read_of_length_zero:
  "UnixFileInStream_read os 0 = Inr (0, [], os) \<and> BufferedInStream_read rd st 0 = Inr (0, [], st)"
  by (simp add: UnixFileInStream_read_def BufferedInStream_read_def)

text \<open>
  \<^verbatim>\<open>readuntil\<close> and \<^verbatim>\<open>getline\<close> relative to \<^verbatim>\<open>getchar\<close>. Whenever
  \<^verbatim>\<open>readuntil\<close> returns, its result consists of the values that successive
  \<^verbatim>\<open>getchar\<close> calls delivered, none of them \<^verbatim>\<open>EOF\<close>; no shorter non-empty part of it
  ends with the delimiter; and either the result ends with the delimiter and the stream
  is where the last of these calls left it, or the next \<^verbatim>\<open>getchar\<close> returned \<^verbatim>\<open>EOF\<close>.
  \<^verbatim>\<open>getline\<close> then returns the same bytes without the delimiter, when the result of
  \<^verbatim>\<open>readuntil\<close> ends with it, and unchanged otherwise. On the input
  \<^verbatim>\<open>"ab\r\ncd\r\n"\<close>, \<^verbatim>\<open>readuntil("\r\n")\<close> returns \<^verbatim>\<open>"ab\r\n"\<close> and then
  \<^verbatim>\<open>"cd\r\n"\<close>; on \<^verbatim>\<open>"x\ny\n"\<close>, \<^verbatim>\<open>getline('\n')\<close> returns \<^verbatim>\<open>"x"\<close> and then
  \<^verbatim>\<open>"y"\<close>.
\<close>

lemma readuntil_relative_to_getchar:
  "(InStream_readuntil gc st eol = Some (Inr (ret, st')) \<longrightarrow>
      (\<exists>cs st1. getchars gc st (length ret) = Inr (cs, st1) \<and> ret = map word_of_int cs \<and>
          EOF \<notin> set cs \<and>
          (\<forall>k. 0 < k \<and> k < length ret \<longrightarrow> \<not> ends_with (take k ret) eol) \<and>
          (if ret \<noteq> [] \<and> ends_with ret eol then st' = st1 else gc st1 = Inr (EOF, st'))) \<and>
      (\<exists>line. InStream_getline gc st eol = Some (Inr (line, st')) \<and>
          (if ends_with ret eol then ret = line @ eol else line = ret)))
   \<and> (InStream_readuntil_char gc st c = Some (Inr (ret, st')) \<longrightarrow>
      (\<exists>cs st1. getchars gc st (length ret) = Inr (cs, st1) \<and> ret = map word_of_int cs \<and>
          EOF \<notin> set cs \<and> (\<forall>k. Suc k < length cs \<longrightarrow> cs ! k \<noteq> sint c) \<and>
          (if cs \<noteq> [] \<and> last cs = sint c then st' = st1 else gc st1 = Inr (EOF, st'))) \<and>
      (\<exists>line. InStream_getline_char gc st c = Some (Inr (line, st')) \<and>
          (if ret \<noteq> [] \<and> last ret = c then ret = line @ [c] else line = ret)))
   \<and> InStream_readuntil (InStream_getchar UnixFileInStream_read) crlf_input [13, 10] =
       Some (Inr ([97, 98, 13, 10], \<lparr>source = [Data [99, 100, 13, 10]], reads = 4, in_errno = 0\<rparr>))
   \<and> InStream_readuntil (InStream_getchar UnixFileInStream_read)
         \<lparr>source = [Data [99, 100, 13, 10]], reads = 4, in_errno = 0\<rparr> [13, 10] =
       Some (Inr ([99, 100, 13, 10], \<lparr>source = [], reads = 8, in_errno = 0\<rparr>))
   \<and> InStream_getline_char (InStream_getchar UnixFileInStream_read) lines_input 10 =
       Some (Inr ([120], \<lparr>source = [Data [121, 10]], reads = 2, in_errno = 0\<rparr>))
   \<and> InStream_getline_char (InStream_getchar UnixFileInStream_read)
         \<lparr>source = [Data [121, 10]], reads = 2, in_errno = 0\<rparr> 10 =
       Some (Inr ([121], \<lparr>source = [], reads = 4, in_errno = 0\<rparr>))
   \<and> InStream_getline_char (BufferedInStream_getchar UnixFileInStream_read)
         (BufferedInStream_new lines_input []) 10 =
       Some (Inr ([120],
                  \<lparr>inp = \<lparr>source = [], reads = 1, in_errno = 0\<rparr>,
                     in_buf = [120, 10, 121, 10] @ replicate 8188 0, in_top = 2, in_max = 4\<rparr>))
   \<and> InStream_getline_char (BufferedInStream_getchar UnixFileInStream_read)
         \<lparr>inp = \<lparr>source = [], reads = 1, in_errno = 0\<rparr>,
            in_buf = [120, 10, 121, 10] @ replicate 8188 0, in_top = 2, in_max = 4\<rparr> 10 =
       Some (Inr ([121],
                  \<lparr>inp = \<lparr>source = [], reads = 1, in_errno = 0\<rparr>,
                     in_buf = [120, 10, 121, 10] @ replicate 8188 0, in_top = 4, in_max = 4\<rparr>))"
proof (intro conjI impI)
  assume a: "InStream_readuntil gc st eol = Some (Inr (ret, st'))"
  show "\<exists>cs st1. getchars gc st (length ret) = Inr (cs, st1) \<and> ret = map word_of_int cs \<and>
          EOF \<notin> set cs \<and>
          (\<forall>k. 0 < k \<and> k < length ret \<longrightarrow> \<not> ends_with (take k ret) eol) \<and>
          (if ret \<noteq> [] \<and> ends_with ret eol then st' = st1 else gc st1 = Inr (EOF, st'))"
    using a by (rule readuntil_sound)
  show "\<exists>line. InStream_getline gc st eol = Some (Inr (line, st')) \<and>
          (if ends_with ret eol then ret = line @ eol else line = ret)"
    using a by (rule getline_strips)
next
  assume a: "InStream_readuntil_char gc st c = Some (Inr (ret, st'))"
  show "\<exists>cs st1. getchars gc st (length ret) = Inr (cs, st1) \<and> ret = map word_of_int cs \<and>
          EOF \<notin> set cs \<and> (\<forall>k. Suc k < length cs \<longrightarrow> cs ! k \<noteq> sint c) \<and>
          (if cs \<noteq> [] \<and> last cs = sint c then st' = st1 else gc st1 = Inr (EOF, st'))"
    using a by (rule readuntil_char_sound)
  show "\<exists>line. InStream_getline_char gc st c = Some (Inr (line, st')) \<and>
          (if ret \<noteq> [] \<and> last ret = c then ret = line @ [c] else line = ret)"
    using a by (rule getline_char_strips)
next
  show "InStream_readuntil (InStream_getchar UnixFileInStream_read) crlf_input [13, 10] =
       Some (Inr ([97, 98, 13, 10], \<lparr>source = [Data [99, 100, 13, 10]], reads = 4, in_errno = 0\<rparr>))"
    by (simp add: InStream_readuntil_def InStream_readuntil_loop.simps eval_unix_getchar
        crlf_input_def ends_with_def)
next
  show "InStream_readuntil (InStream_getchar UnixFileInStream_read)
         \<lparr>source = [Data [99, 100, 13, 10]], reads = 4, in_errno = 0\<rparr> [13, 10] =
       Some (Inr ([99, 100, 13, 10], \<lparr>source = [], reads = 8, in_errno = 0\<rparr>))"
    by (simp add: InStream_readuntil_def InStream_readuntil_loop.simps eval_unix_getchar ends_with_def)
next
  show "InStream_getline_char (InStream_getchar UnixFileInStream_read) lines_input 10 =
       Some (Inr ([120], \<lparr>source = [Data [121, 10]], reads = 2, in_errno = 0\<rparr>))"
    by (simp add: InStream_getline_char_def InStream_readuntil_char_def
        InStream_readuntil_char_loop.simps eval_unix_getchar lines_input_def)
next
  show "InStream_getline_char (InStream_getchar UnixFileInStream_read)
         \<lparr>source = [Data [121, 10]], reads = 2, in_errno = 0\<rparr> 10 =
       Some (Inr ([121], \<lparr>source = [], reads = 4, in_errno = 0\<rparr>))"
    by (simp add: InStream_getline_char_def InStream_readuntil_char_def
        InStream_readuntil_char_loop.simps eval_unix_getchar)
next
  show "InStream_getline_char (BufferedInStream_getchar UnixFileInStream_read)
         (BufferedInStream_new lines_input []) 10 =
       Some (Inr ([120],
                  \<lparr>inp = \<lparr>source = [], reads = 1, in_errno = 0\<rparr>,
                     in_buf = [120, 10, 121, 10] @ replicate 8188 0, in_top = 2, in_max = 4\<rparr>))"
    by (simp add: InStream_getline_char_def InStream_readuntil_char_def
        InStream_readuntil_char_loop.simps BufferedInStream_getchar_def refill_def fetch_def poke_def
        BufferedInStream_new_def valloc_def BUFSIZ_def eval_unix_getchar lines_input_def)
next
  show "InStream_getline_char (BufferedInStream_getchar UnixFileInStream_read)
         \<lparr>inp = \<lparr>source = [], reads = 1, in_errno = 0\<rparr>,
            in_buf = [120, 10, 121, 10] @ replicate 8188 0, in_top = 2, in_max = 4\<rparr> 10 =
       Some (Inr ([121],
                  \<lparr>inp = \<lparr>source = [], reads = 1, in_errno = 0\<rparr>,
                     in_buf = [120, 10, 121, 10] @ replicate 8188 0, in_top = 4, in_max = 4\<rparr>))"
    by (simp add: InStream_getline_char_def InStream_readuntil_char_def
        InStream_readuntil_char_loop.simps BufferedInStream_getchar_def refill_def fetch_def poke_def
        BUFSIZ_def eval_unix_getchar)
qed

text \<open>
  C7. The claim: \<^verbatim>\<open>readuntil\<close> stops after the delimiter or at the end of the stream,
  and \<^verbatim>\<open>getline\<close> returns the same bytes without the delimiter. What the code does on
  the bytes 97 255 98 10 with the delimiter 10: \<^verbatim>\<open>getchar\<close> hands the byte 255 on as
  \<open>- 1\<close>, which \<^verbatim>\<open>readuntil\<close> takes for \<^verbatim>\<open>EOF\<close>. The call returns the one byte 97; the
  byte 255 is gone, and the stream has not ended: the next \<^verbatim>\<open>getchar\<close> delivers 98. This
  holds for the descriptor read directly and through a \<^verbatim>\<open>BufferedInStream\<close>, and for
  \<^verbatim>\<open>getline\<close> as well.
\<close>

theorem readuntil_stops_at_byte_255:
  "InStream_readuntil_char (InStream_getchar UnixFileInStream_read) ff_input 10 =
     Some (Inr ([97], \<lparr>source = [Data [98, 10]], reads = 2, in_errno = 0\<rparr>))
   \<and> InStream_readuntil (InStream_getchar UnixFileInStream_read) ff_input [10] =
     Some (Inr ([97], \<lparr>source = [Data [98, 10]], reads = 2, in_errno = 0\<rparr>))
   \<and> InStream_getline_char (InStream_getchar UnixFileInStream_read) ff_input 10 =
     Some (Inr ([97], \<lparr>source = [Data [98, 10]], reads = 2, in_errno = 0\<rparr>))
   \<and> InStream_getchar UnixFileInStream_read \<lparr>source = [Data [98, 10]], reads = 2, in_errno = 0\<rparr> =
     Inr (98, \<lparr>source = [Data [10]], reads = 3, in_errno = 0\<rparr>)
   \<and> InStream_readuntil_char (BufferedInStream_getchar UnixFileInStream_read)
       (BufferedInStream_new ff_input []) 10 =
     Some (Inr ([97],
                \<lparr>inp = \<lparr>source = [], reads = 1, in_errno = 0\<rparr>,
                   in_buf = [97, 255, 98, 10] @ replicate 8188 0, in_top = 2, in_max = 4\<rparr>))
   \<and> BufferedInStream_getchar UnixFileInStream_read
       \<lparr>inp = \<lparr>source = [], reads = 1, in_errno = 0\<rparr>,
          in_buf = [97, 255, 98, 10] @ replicate 8188 0, in_top = 2, in_max = 4\<rparr> =
     Inr (98, \<lparr>inp = \<lparr>source = [], reads = 1, in_errno = 0\<rparr>,
                 in_buf = [97, 255, 98, 10] @ replicate 8188 0, in_top = 3, in_max = 4\<rparr>)"
proof (intro conjI)
  show "InStream_readuntil_char (InStream_getchar UnixFileInStream_read) ff_input 10 =
     Some (Inr ([97], \<lparr>source = [Data [98, 10]], reads = 2, in_errno = 0\<rparr>))"
    by (simp add: InStream_readuntil_char_def InStream_readuntil_char_loop.simps eval_unix_getchar
        ff_input_def)
  show "InStream_readuntil (InStream_getchar UnixFileInStream_read) ff_input [10] =
     Some (Inr ([97], \<lparr>source = [Data [98, 10]], reads = 2, in_errno = 0\<rparr>))"
    by (simp add: InStream_readuntil_def InStream_readuntil_loop.simps eval_unix_getchar
        ff_input_def ends_with_def)
  show "InStream_getline_char (InStream_getchar UnixFileInStream_read) ff_input 10 =
     Some (Inr ([97], \<lparr>source = [Data [98, 10]], reads = 2, in_errno = 0\<rparr>))"
    by (simp add: InStream_getline_char_def InStream_readuntil_char_def
        InStream_readuntil_char_loop.simps eval_unix_getchar ff_input_def)
  show "InStream_getchar UnixFileInStream_read \<lparr>source = [Data [98, 10]], reads = 2, in_errno = 0\<rparr> =
     Inr (98, \<lparr>source = [Data [10]], reads = 3, in_errno = 0\<rparr>)"
    by (simp add: eval_unix_getchar)
  show "InStream_readuntil_char (BufferedInStream_getchar UnixFileInStream_read)
       (BufferedInStream_new ff_input []) 10 =
     Some (Inr ([97],
                \<lparr>inp = \<lparr>source = [], reads = 1, in_errno = 0\<rparr>,
                   in_buf = [97, 255, 98, 10] @ replicate 8188 0, in_top = 2, in_max = 4\<rparr>))"
    by (simp add: InStream_readuntil_char_def InStream_readuntil_char_loop.simps
        BufferedInStream_getchar_def refill_def fetch_def poke_def BufferedInStream_new_def valloc_def
        BUFSIZ_def eval_unix_getchar ff_input_def)
  show "BufferedInStream_getchar UnixFileInStream_read
       \<lparr>inp = \<lparr>source = [], reads = 1, in_errno = 0\<rparr>,
          in_buf = [97, 255, 98, 10] @ replicate 8188 0, in_top = 2, in_max = 4\<rparr> =
     Inr (98, \<lparr>inp = \<lparr>source = [], reads = 1, in_errno = 0\<rparr>,
                 in_buf = [97, 255, 98, 10] @ replicate 8188 0, in_top = 3, in_max = 4\<rparr>)"
    by (simp add: BufferedInStream_getchar_def fetch_def)
qed

end
